theory Spec2Isabelle
  imports Main "HOL-Library.Sublist" "HOL-Library.AList"
begin

section \<open>Strings of the host language\<close>

text \<open>
  A string is a list of code units; the model covers the code units below 256, so a
  \<^typ>\<open>char\<close> is one code unit. On that range \<open>toLowerCase\<close> maps \<open>A..Z\<close> and the
  Latin-1 capitals (192..222 except the multiplication sign 215) to the code unit 32 above,
  and leaves every other code unit alone.
\<close>

definition toLowerChar :: "char \<Rightarrow> char" where
  "toLowerChar c =
     (let n = (of_char c :: nat)
      in if (65 \<le> n \<and> n \<le> 90) \<or> (192 \<le> n \<and> n \<le> 222 \<and> n \<noteq> 215)
         then char_of (n + 32) else c)"

definition toLowerCase :: "string \<Rightarrow> string" where
  "toLowerCase s = map toLowerChar s"

text \<open>
  \<open>String.prototype.trim\<close> removes white space and line terminators from both ends; below
  256 these are tab, line feed, vertical tab, form feed, carriage return, space and the
  no-break space.
\<close>

definition isTrimChar :: "char \<Rightarrow> bool" where
  "isTrimChar c = ((of_char c :: nat) \<in> {9, 10, 11, 12, 13, 32, 160})"

definition trim :: "string \<Rightarrow> string" where
  "trim s = rev (dropWhile isTrimChar (rev (dropWhile isTrimChar s)))"

text \<open>The dot of a regular expression (no \<open>s\<close> flag) refuses the line terminators.\<close>

definition isLineTerminator :: "char \<Rightarrow> bool" where
  "isLineTerminator c = ((of_char c :: nat) \<in> {10, 13})"

definition endsWith :: "string \<Rightarrow> string \<Rightarrow> bool" where
  "endsWith s suf = (length suf \<le> length s \<and> drop (length s - length suf) s = suf)"

text \<open>\<open>s.split("/").pop()\<close>: the text after the last slash (all of \<open>s\<close> when it has none).\<close>

definition lastSegment :: "string \<Rightarrow> string" where
  "lastSegment s = rev (takeWhile (\<lambda>c. c \<noteq> CHR ''/'') (rev s))"

text \<open>\<open>s.split("/").pop() || s\<close>: an empty last segment is falsy, so \<open>s\<close> itself is taken.\<close>

definition basenameOr :: "string \<Rightarrow> string" where
  "basenameOr s = (let b = lastSegment s in if b = [] then s else b)"

section \<open>Reference resolution (duplicate-detector)\<close>

text \<open>
  The wiki-link pattern \<open>^\[\[([^\]|]+)(?:\|[^\]]+)?\]\]$\<close>. After the two opening
  brackets the greedy class \<open>[^\]|]+\<close> takes the longest run free of \<open>]\<close> and \<open>|\<close> (a
  shorter run cannot be followed by \<open>|\<close> or \<open>]\<close>); what follows is either \<open>]]\<close> at the
  end, or a bar, a non-empty run free of \<open>]\<close>, and \<open>]]\<close> at the end.
\<close>

definition wikiRest :: "string \<Rightarrow> bool" where
  "wikiRest after =
     (after = '']]'' \<or>
      (case after of
         c # a \<Rightarrow> c = CHR ''|'' \<and> takeWhile (\<lambda>c. c \<noteq> CHR '']'') a \<noteq> []
                   \<and> dropWhile (\<lambda>c. c \<noteq> CHR '']'') a = '']]''
       | [] \<Rightarrow> False))"

definition wikiMatch :: "string \<Rightarrow> string option" where
  "wikiMatch link =
     (case link of
        c1 # c2 # rest \<Rightarrow>
          if c1 = CHR ''['' \<and> c2 = CHR ''['' then
            (let target = takeWhile (\<lambda>c. c \<noteq> CHR '']'' \<and> c \<noteq> CHR ''|'') rest;
                 after = dropWhile (\<lambda>c. c \<noteq> CHR '']'' \<and> c \<noteq> CHR ''|'') rest
             in if target \<noteq> [] \<and> wikiRest after then Some target else None)
          else None
      | _ \<Rightarrow> None)"

text \<open>
  The markdown-link pattern \<open>^\[.*?\]\(([^)]+)\)$\<close>. The lazy \<open>.*?\<close> tries the shortest
  label first: at each position, if \<open>](\<close> is next and the rest is a non-empty run free of
  \<open>)\<close> followed by one \<open>)\<close> at the end, the match is found; otherwise the label grows by
  one code unit, which must not be a line terminator.
\<close>

definition mdTail :: "string \<Rightarrow> bool" where
  "mdTail t = (t \<noteq> [] \<and> last t = CHR '')'' \<and> butlast t \<noteq> [] \<and> CHR '')'' \<notin> set (butlast t))"

fun mdScan :: "string \<Rightarrow> string option" where
  "mdScan [] = None"
| "mdScan (c # cs) =
     (if c = CHR '']'' \<and> (case cs of d # t \<Rightarrow> d = CHR ''('' \<and> mdTail t | [] \<Rightarrow> False)
      then Some (butlast (tl cs))
      else if isLineTerminator c then None
      else mdScan cs)"

definition mdMatch :: "string \<Rightarrow> string option" where
  "mdMatch link =
     (case link of c # cs \<Rightarrow> if c = CHR ''['' then mdScan cs else None | [] \<Rightarrow> None)"

definition extractPathFromLink :: "string \<Rightarrow> string" where
  "extractPathFromLink link =
     (if link = [] then []
      else case wikiMatch link of
        Some t \<Rightarrow> trim t
      | None \<Rightarrow> (case mdMatch link of Some t \<Rightarrow> trim t | None \<Rightarrow> trim link))"

text \<open>The pattern \<open>/\.md$/i\<close>: the string ends in a dot, \<open>m\<close> or \<open>M\<close>, \<open>d\<close> or \<open>D\<close>.\<close>

definition hasMdExt :: "string \<Rightarrow> bool" where
  "hasMdExt p =
     (case rev p of
        d # m # dot # _ \<Rightarrow>
          (d = CHR ''d'' \<or> d = CHR ''D'') \<and> (m = CHR ''m'' \<or> m = CHR ''M'') \<and> dot = CHR ''.''
      | _ \<Rightarrow> False)"

definition stripMdExt :: "string \<Rightarrow> string" where
  "stripMdExt p = (if hasMdExt p then take (length p - 3) p else p)"

definition normalizePath :: "string \<Rightarrow> string" where
  "normalizePath p = toLowerCase (stripMdExt p)"

section \<open>Duplicate detection (duplicate-detector)\<close>

text \<open>
  Of a task record the detector reads the path and the optional \<open>projects\<close> link-list.
  A \<open>Set<string>\<close> is a list in insertion order without repetition; a \<open>Map\<close> is an
  association list, \<open>set\<close> keeping the position of a key that is already there.
\<close>

record TaskInfo =
  task_path :: string
  task_projects :: "string list option"

definition setAdd :: "'a \<Rightarrow> 'a list \<Rightarrow> 'a list" where
  "setAdd x xs = (if x \<in> set xs then xs else xs @ [x])"

definition projectMatches :: "string \<Rightarrow> string \<Rightarrow> string \<Rightarrow> bool" where
  "projectMatches normalizedSource sourceBasename project =
     (let projectPath = extractPathFromLink project;
          normalizedProject = normalizePath projectPath;
          projectBasename = basenameOr normalizedProject
      in normalizedProject = normalizedSource \<or>
         projectBasename = sourceBasename \<or>
         endsWith normalizedProject (CHR ''/'' # sourceBasename) \<or>
         endsWith normalizedSource (CHR ''/'' # projectBasename))"

text \<open>The \<open>for\<close> loop over the link-list, returning at the first match.\<close>

fun linksLoop :: "string \<Rightarrow> string \<Rightarrow> string list \<Rightarrow> bool" where
  "linksLoop normalizedSource sourceBasename [] = False"
| "linksLoop normalizedSource sourceBasename (project # rest) =
     (if projectMatches normalizedSource sourceBasename project then True
      else linksLoop normalizedSource sourceBasename rest)"

definition taskLinksToSource :: "TaskInfo \<Rightarrow> string \<Rightarrow> bool" where
  "taskLinksToSource task sourcePath =
     (case task_projects task of
        None \<Rightarrow> False
      | Some projects \<Rightarrow>
          if length projects = 0 then False
          else (let normalizedSource = normalizePath sourcePath;
                    sourceBasename = basenameOr normalizedSource
                in linksLoop normalizedSource sourceBasename projects))"

record DuplicateCheckResult =
  existingTaskPaths :: "string list"
  sourceToTaskMap :: "(string \<times> string list) list"

fun checkLoop :: "TaskInfo list \<Rightarrow> string list \<Rightarrow> DuplicateCheckResult \<Rightarrow> DuplicateCheckResult" where
  "checkLoop allTasks [] r = r"
| "checkLoop allTasks (sourcePath # rest) r =
     (let linkedTasks = map task_path (filter (\<lambda>task. taskLinksToSource task sourcePath) allTasks)
      in checkLoop allTasks rest
           (if length linkedTasks > 0
            then r\<lparr>existingTaskPaths := setAdd sourcePath (existingTaskPaths r),
                   sourceToTaskMap := AList.update sourcePath linkedTasks (sourceToTaskMap r)\<rparr>
            else r))"

text \<open>
  \<open>getAllTasks\<close> is what the cache manager answers to the call made up front: the tasks, or
  (\<open>Inl\<close>) the message of the error it throws, which leaves \<open>checkForDuplicates\<close> with it.
\<close>

definition checkForDuplicates :: "string + TaskInfo list \<Rightarrow> string list \<Rightarrow> string + DuplicateCheckResult" where
  "checkForDuplicates getAllTasks sourcePaths =
     (case getAllTasks of
        Inl thrown \<Rightarrow> Inl thrown
      | Inr allTasks \<Rightarrow>
          Inr (checkLoop allTasks sourcePaths \<lparr>existingTaskPaths = [], sourceToTaskMap = []\<rparr>))"
section \<open>The matching rule as the specification words it\<close>

text \<open>
  The rule of the specification, written from its words and apart from the functions above,
  to compare the code with. \<open>normalize\<close> lower-cases the path and strips a trailing \<open>.md\<close>.
  The specification does not say what \<open>basename\<close> is; it is read as the last of the segments
  that the slashes divide the path into, and as the path itself where that segment is empty
  (a path that ends in a slash, and the empty path).
\<close>

fun slashSegments :: "string \<Rightarrow> string list" where
  "slashSegments [] = [[]]"
| "slashSegments (c # cs) =
     (if c = CHR ''/'' then [] # slashSegments cs
      else (case slashSegments cs of s # ss \<Rightarrow> (c # s) # ss | [] \<Rightarrow> [[c]]))"

definition specBasename :: "string \<Rightarrow> string" where
  "specBasename p = (if last (slashSegments p) = [] then p else last (slashSegments p))"

definition specNormalize :: "string \<Rightarrow> string" where
  "specNormalize p =
     (if endsWith (toLowerCase p) ''.md'' then take (length p - 3) (toLowerCase p)
      else toLowerCase p)"

section \<open>Values of the host language\<close>

text \<open>
  Property values of items and of a document's metadata bag: strings, booleans, whole
  numbers, \<open>null\<close> and arrays. \<open>undefined\<close> is the absence of the key.
\<close>

datatype jsval = JStr string | JBool bool | JNum int | JNull | JArr "jsval list"

fun truthy :: "jsval \<Rightarrow> bool" where
  "truthy (JStr s) = (s \<noteq> [])"
| "truthy (JBool b) = b"
| "truthy (JNum n) = (n \<noteq> 0)"
| "truthy JNull = False"
| "truthy (JArr xs) = True"

fun digitsOf :: "nat \<Rightarrow> string" where
  "digitsOf n = (if n < 10 then [char_of (48 + n)] else digitsOf (n div 10) @ [char_of (48 + n mod 10)])"

fun joinComma :: "string list \<Rightarrow> string" where
  "joinComma [] = []"
| "joinComma [s] = s"
| "joinComma (s # t # rest) = s @ '','' @ joinComma (t # rest)"

text \<open>\<open>String(v)\<close>; inside an array \<open>null\<close> prints as the empty string.\<close>

fun jsString :: "jsval \<Rightarrow> string" where
  "jsString (JStr s) = s"
| "jsString (JBool b) = (if b then ''true'' else ''false'')"
| "jsString (JNum n) = (if n < 0 then CHR ''-'' # digitsOf (nat (- n)) else digitsOf (nat n))"
| "jsString JNull = ''null''"
| "jsString (JArr xs) = joinComma (map (\<lambda>x. if x = JNull then [] else jsString x) xs)"

section \<open>Bulk task creation (bulk-task-engine)\<close>

record BasesDataItem =
  item_path :: "string option"
  item_name :: "string option"
  item_fileBasename :: "string option"
  item_properties :: "(string \<times> jsval) list option"

text \<open>
  The progress callback of a batch: called with the current index, the total and a status
  line, it returns (\<open>None\<close>) or throws (\<open>Some\<close> the message of the error).
\<close>

type_synonym progress = "nat \<Rightarrow> nat \<Rightarrow> string \<Rightarrow> string option"

record BulkCreationOptions =
  skipExisting :: bool
  useParentAsProject :: bool
  onProgress :: "progress option"

text \<open>\<open>options.onProgress?.(current, total, status)\<close>: nothing is called when the callback is missing.\<close>

definition reportProgress :: "progress option \<Rightarrow> nat \<Rightarrow> nat \<Rightarrow> string \<Rightarrow> string option" where
  "reportProgress callback current ntotal status =
     (case callback of None \<Rightarrow> None | Some f \<Rightarrow> f current ntotal status)"

record BulkCreationResult =
  created :: nat
  skipped :: nat
  failed :: nat
  errors :: "string list"
  createdPaths :: "string list"

record TaskCreationData =
  td_title :: string
  td_creationContext :: string
  td_projects :: "string list option"
  td_due :: "string option"
  td_scheduled :: "string option"
  td_priority :: "string option"
  td_contexts :: "string list option"

text \<open>\<open>item.path || ""\<close>\<close>

definition pathOrEmpty :: "BasesDataItem \<Rightarrow> string" where
  "pathOrEmpty item = (case item_path item of Some p \<Rightarrow> p | None \<Rightarrow> [])"

definition propsOf :: "BasesDataItem \<Rightarrow> string \<Rightarrow> jsval option" where
  "propsOf item = (case item_properties item of Some ps \<Rightarrow> map_of ps | None \<Rightarrow> Map.empty)"

definition truthyStr :: "string option \<Rightarrow> bool" where
  "truthyStr s = (case s of Some t \<Rightarrow> t \<noteq> [] | None \<Rightarrow> False)"

definition extractTitle :: "BasesDataItem \<Rightarrow> string" where
  "extractTitle item =
     (case propsOf item ''title'' of
        Some (JStr t) \<Rightarrow> if t \<noteq> [] then t else
          (if truthyStr (item_fileBasename item) then the (item_fileBasename item)
           else if truthyStr (item_name item) then the (item_name item)
           else if truthyStr (item_path item) then stripMdExt (basenameOr (the (item_path item)))
           else ''Untitled task'')
      | _ \<Rightarrow>
          (if truthyStr (item_fileBasename item) then the (item_fileBasename item)
           else if truthyStr (item_name item) then the (item_name item)
           else if truthyStr (item_path item) then stripMdExt (basenameOr (the (item_path item)))
           else ''Untitled task''))"

text \<open>
  \<open>markdownLink\<close> is the host: for a path that is a file of the vault, the link the file
  manager generates; \<open>None\<close> for any other path.
\<close>

definition generateProjectLink :: "(string \<Rightarrow> string option) \<Rightarrow> string \<Rightarrow> string" where
  "generateProjectLink markdownLink sourcePath =
     (case markdownLink sourcePath of
        Some l \<Rightarrow> l
      | None \<Rightarrow>
          (let stripped = stripMdExt (lastSegment sourcePath);
               basename = (if stripped = [] then sourcePath else stripped)
           in ''[['' @ basename @ '']]''))"

definition strProp :: "BasesDataItem \<Rightarrow> string \<Rightarrow> string option" where
  "strProp item k =
     (case propsOf item k of Some v \<Rightarrow> if truthy v then Some (jsString v) else None | None \<Rightarrow> None)"

definition buildTaskData ::
  "(string \<Rightarrow> string option) \<Rightarrow> BulkCreationOptions \<Rightarrow> BasesDataItem \<Rightarrow> TaskCreationData" where
  "buildTaskData markdownLink options item =
     \<lparr>td_title = extractTitle item,
      td_creationContext = ''manual-creation'',
      td_projects = (if useParentAsProject options \<and> pathOrEmpty item \<noteq> []
                     then Some [generateProjectLink markdownLink (pathOrEmpty item)] else None),
      td_due = strProp item ''due'',
      td_scheduled = strProp item ''scheduled'',
      td_priority = strProp item ''priority'',
      td_contexts = (case propsOf item ''contexts'' of
                       Some (JArr xs) \<Rightarrow> Some (map jsString xs)
                     | _ \<Rightarrow> None)\<rparr>"

text \<open>
  What \<open>createTaskForItem\<close> ends in: the task service answers a file (its path), answers
  no file, or throws (the message of the error). The service is the host: \<open>svc i d\<close> is its
  answer to the call made for the item of index \<open>i\<close> with the data \<open>d\<close>.
\<close>

datatype create_outcome = FileCreated string | NoFile | Thrown string

type_synonym task_service = "nat \<Rightarrow> TaskCreationData \<Rightarrow> create_outcome"

definition createTaskForItem ::
  "(string \<Rightarrow> string option) \<Rightarrow> task_service \<Rightarrow> BulkCreationOptions \<Rightarrow> nat \<Rightarrow> BasesDataItem
     \<Rightarrow> create_outcome" where
  "createTaskForItem markdownLink svc options i item = svc i (buildTaskData markdownLink options item)"

text \<open>
  One round of the \<open>for\<close> loop of \<open>createTasks\<close>. Beside the result the model keeps the
  calls made to the task service (index and data), in order. The progress callback is called
  outside the \<open>try\<close>: when it throws, the round ends with its error (\<open>Inl\<close>), which nothing in
  \<open>createTasks\<close> catches.
\<close>

type_synonym creation_state = "BulkCreationResult \<times> (nat \<times> TaskCreationData) list"

definition skipsItem :: "BulkCreationOptions \<Rightarrow> DuplicateCheckResult option \<Rightarrow> BasesDataItem \<Rightarrow> bool" where
  "skipsItem options duplicateCheck item =
     (skipExisting options \<and>
      (case duplicateCheck of
         Some d \<Rightarrow> pathOrEmpty item \<in> set (existingTaskPaths d)
       | None \<Rightarrow> False))"

text \<open>The status line \<open>`Creating task ${i + 1} of ${total}...`\<close>.\<close>

definition creatingStatus :: "nat \<Rightarrow> nat \<Rightarrow> string" where
  "creatingStatus current ntotal =
     ''Creating task '' @ digitsOf current @ '' of '' @ digitsOf ntotal @ ''...''"

definition createStep ::
  "(string \<Rightarrow> string option) \<Rightarrow> task_service \<Rightarrow> BulkCreationOptions \<Rightarrow> DuplicateCheckResult option
     \<Rightarrow> nat \<Rightarrow> creation_state \<Rightarrow> nat \<times> BasesDataItem \<Rightarrow> string + creation_state" where
  "createStep markdownLink svc options duplicateCheck ntotal st ix =
     (let result = fst st; calls = snd st; i = fst ix; item = snd ix;
          sourcePath = pathOrEmpty item
      in case reportProgress (onProgress options) (i + 1) ntotal (creatingStatus (i + 1) ntotal) of
           Some thrown \<Rightarrow> Inl thrown
         | None \<Rightarrow>
             Inr (if skipsItem options duplicateCheck item
                  then (result\<lparr>skipped := skipped result + 1\<rparr>, calls)
                  else (case createTaskForItem markdownLink svc options i item of
                          FileCreated p \<Rightarrow>
                            (result\<lparr>created := created result + 1,
                                    createdPaths := createdPaths result @ [p]\<rparr>,
                             calls @ [(i, buildTaskData markdownLink options item)])
                        | NoFile \<Rightarrow>
                            (result\<lparr>failed := failed result + 1,
                                    errors := errors result
                                      @ [''Failed to create task for: '' @ sourcePath]\<rparr>,
                             calls @ [(i, buildTaskData markdownLink options item)])
                        | Thrown errorMsg \<Rightarrow>
                            (result\<lparr>failed := failed result + 1,
                                    errors := errors result
                                      @ [''Error for '' @ sourcePath @ '': '' @ errorMsg]\<rparr>,
                             calls @ [(i, buildTaskData markdownLink options item)]))))"

text \<open>
  The loop: it answers the result (\<open>Inr\<close>) after the last item, or the error of the round that
  threw (\<open>Inl\<close>); either way with the calls made to the task service so far.
\<close>

fun createLoop ::
  "(string \<Rightarrow> string option) \<Rightarrow> task_service \<Rightarrow> BulkCreationOptions \<Rightarrow> DuplicateCheckResult option
     \<Rightarrow> nat \<Rightarrow> (nat \<times> BasesDataItem) list \<Rightarrow> creation_state
     \<Rightarrow> (string + BulkCreationResult) \<times> (nat \<times> TaskCreationData) list" where
  "createLoop markdownLink svc options duplicateCheck ntotal [] st = (Inr (fst st), snd st)"
| "createLoop markdownLink svc options duplicateCheck ntotal (ix # rest) st =
     (case createStep markdownLink svc options duplicateCheck ntotal st ix of
        Inl thrown \<Rightarrow> (Inl thrown, snd st)
      | Inr st' \<Rightarrow> createLoop markdownLink svc options duplicateCheck ntotal rest st')"

definition emptyCreationResult :: BulkCreationResult where
  "emptyCreationResult = \<lparr>created = 0, skipped = 0, failed = 0, errors = [], createdPaths = []\<rparr>"

text \<open>The source paths handed to the duplicate check: \<open>items.map(path || "").filter(Boolean)\<close>.\<close>

definition checkedSourcePaths :: "BasesDataItem list \<Rightarrow> string list" where
  "checkedSourcePaths items = filter (\<lambda>p. p \<noteq> []) (map pathOrEmpty items)"

text \<open>
  The up-front duplicate check, with the progress call before it; \<open>Inr None\<close> is the \<open>null\<close>
  left when \<open>skipExisting\<close> is off, \<open>Inl\<close> the error thrown by the callback or by the check.
\<close>

definition upFrontCheck ::
  "string + TaskInfo list \<Rightarrow> BasesDataItem list \<Rightarrow> BulkCreationOptions
     \<Rightarrow> string + DuplicateCheckResult option" where
  "upFrontCheck getAllTasks items options =
     (if skipExisting options
      then (case reportProgress (onProgress options) 0 (length items)
                   ''Checking for existing tasks...'' of
              Some thrown \<Rightarrow> Inl thrown
            | None \<Rightarrow>
                (case checkForDuplicates getAllTasks (checkedSourcePaths items) of
                   Inl thrown \<Rightarrow> Inl thrown
                 | Inr d \<Rightarrow> Inr (Some d)))
      else Inr None)"

text \<open>
  \<open>createTasks\<close>: the structured result, or (\<open>Inl\<close>) the error with which the returned
  promise rejects; and the calls made to the task service.
\<close>

definition createTasks ::
  "(string \<Rightarrow> string option) \<Rightarrow> task_service \<Rightarrow> string + TaskInfo list \<Rightarrow> BasesDataItem list
     \<Rightarrow> BulkCreationOptions \<Rightarrow> (string + BulkCreationResult) \<times> (nat \<times> TaskCreationData) list" where
  "createTasks markdownLink svc getAllTasks items options =
     (if length items = 0 then (Inr emptyCreationResult, [])
      else
        (case upFrontCheck getAllTasks items options of
           Inl thrown \<Rightarrow> (Inl thrown, [])
         | Inr duplicateCheck \<Rightarrow>
             createLoop markdownLink svc options duplicateCheck (length items)
               (enumerate 0 items) (emptyCreationResult, [])))"

text \<open>
  An item of index \<open>i\<close> fails in \<open>createTasks\<close> when it is not skipped and the call made for
  it answers no file or throws.
\<close>

definition creationFails ::
  "(string \<Rightarrow> string option) \<Rightarrow> task_service \<Rightarrow> BulkCreationOptions \<Rightarrow> DuplicateCheckResult option
     \<Rightarrow> nat \<times> BasesDataItem \<Rightarrow> bool" where
  "creationFails markdownLink svc options duplicateCheck ix =
     (\<not> skipsItem options duplicateCheck (snd ix) \<and>
      (case createTaskForItem markdownLink svc options (fst ix) (snd ix) of
         FileCreated p \<Rightarrow> False | NoFile \<Rightarrow> True | Thrown m \<Rightarrow> True))"

text \<open>
  What throws outside the \<open>try\<close> of \<open>createTasks\<close>: with \<open>skipExisting\<close> on, the progress
  call before the duplicate check and the read of the tasks; and the progress call of a round.
\<close>

definition progressThrowsAt :: "BulkCreationOptions \<Rightarrow> nat \<Rightarrow> nat \<Rightarrow> bool" where
  "progressThrowsAt options ntotal i =
     (reportProgress (onProgress options) (i + 1) ntotal (creatingStatus (i + 1) ntotal) \<noteq> None)"

definition creationRejects :: "string + TaskInfo list \<Rightarrow> BasesDataItem list \<Rightarrow> BulkCreationOptions \<Rightarrow> bool" where
  "creationRejects getAllTasks items options =
     (length items > 0 \<and>
      ((skipExisting options \<and>
        (reportProgress (onProgress options) 0 (length items) ''Checking for existing tasks...''
           \<noteq> None \<or> isl getAllTasks)) \<or>
       list_ex (progressThrowsAt options (length items)) [0..<length items]))"
section \<open>Bulk conversion (bulk-convert-engine)\<close>

type_synonym frontmatter = "string \<rightharpoonup> jsval"

record Settings =
  taskIdentificationMethod :: string
  taskPropertyName :: string
  taskPropertyValue :: string
  taskTag :: string
  defaultTaskStatus :: string
  defaultTaskPriority :: string

record BulkConvertOptions =
  applyDefaults :: bool
  linkToBase :: bool
  baseFilePath :: "string option"
  conv_onProgress :: "progress option"

record BulkConvertResult =
  converted :: nat
  conv_skipped :: nat
  conv_failed :: nat
  conv_errors :: "string list"
  convertedPaths :: "string list"

text \<open>\<open>a || b\<close> on strings: the empty string is falsy.\<close>

definition orElse :: "string \<Rightarrow> string \<Rightarrow> string" where
  "orElse a b = (if a = [] then b else a)"

text \<open>Step 1 of the callback handed to \<open>processFrontMatter\<close>: the task identification.\<close>

definition addTaskIdentification :: "Settings \<Rightarrow> frontmatter \<Rightarrow> frontmatter" where
  "addTaskIdentification settings fm =
     (if taskIdentificationMethod settings = ''property'' then
        (let propName = taskPropertyName settings; propValue = taskPropertyValue settings
         in if propName \<noteq> [] \<and> fm propName = None then
              (if propValue = ''true'' then fm(propName \<mapsto> JBool True)
               else if propValue = ''false'' then fm(propName \<mapsto> JBool False)
               else fm(propName \<mapsto> JStr propValue))
            else fm)
      else
        (let theTag = orElse (taskTag settings) ''task'';
             tags = (case fm ''tags'' of Some (JArr xs) \<Rightarrow> xs | _ \<Rightarrow> [])
         in if JStr theTag \<in> set tags then fm(''tags'' \<mapsto> JArr tags)
            else fm(''tags'' \<mapsto> JArr (tags @ [JStr theTag]))))"

definition setIfUndefined :: "string \<Rightarrow> jsval \<Rightarrow> frontmatter \<Rightarrow> frontmatter" where
  "setIfUndefined field v fm = (if fm field = None then fm(field \<mapsto> v) else fm)"

text \<open>Step 2: the defaults, each only where the field is undefined.\<close>

definition applyDefaultFields ::
  "Settings \<Rightarrow> (string \<Rightarrow> string) \<Rightarrow> string \<Rightarrow> frontmatter \<Rightarrow> frontmatter" where
  "applyDefaultFields settings toUserField tsCreated fm =
     setIfUndefined (toUserField ''dateCreated'') (JStr tsCreated)
       (setIfUndefined (toUserField ''priority'') (JStr (orElse (defaultTaskPriority settings) ''normal''))
          (setIfUndefined (toUserField ''status'') (JStr (orElse (defaultTaskStatus settings) ''open'')) fm))"

text \<open>Step 2.5: the link to the base file; \<open>link\<close> is the markdown link the host generated.\<close>

definition addBaseLink :: "string \<Rightarrow> string \<Rightarrow> frontmatter \<Rightarrow> frontmatter" where
  "addBaseLink projectsField link fm =
     (case fm projectsField of
        None \<Rightarrow> fm(projectsField \<mapsto> JArr [JStr link])
      | Some (JArr xs) \<Rightarrow>
          if JStr link \<in> set xs then fm else fm(projectsField \<mapsto> JArr (xs @ [JStr link]))
      | Some _ \<Rightarrow> fm)"

text \<open>
  The whole callback. \<open>baseLink\<close> is \<open>Some\<close> of the generated link when the base path names
  a file of the vault, \<open>None\<close> otherwise; \<open>tsCreated\<close> and \<open>tsModified\<close> are the answers of
  the two calls of \<open>getCurrentTimestamp\<close>.
\<close>

definition convertFrontmatter ::
  "Settings \<Rightarrow> (string \<Rightarrow> string) \<Rightarrow> BulkConvertOptions \<Rightarrow> string option \<Rightarrow> string \<Rightarrow> string
     \<Rightarrow> frontmatter \<Rightarrow> frontmatter" where
  "convertFrontmatter settings toUserField options baseLink tsCreated tsModified fm =
     (let fm1 = addTaskIdentification settings fm;
          fm2 = (if applyDefaults options then applyDefaultFields settings toUserField tsCreated fm1
                 else fm1);
          fm3 = (if linkToBase options \<and> truthyStr (baseFilePath options) then
                   (case baseLink of
                      Some link \<Rightarrow> addBaseLink (toUserField ''projects'') link fm2
                    | None \<Rightarrow> fm2)
                 else fm2)
      in fm3(toUserField ''dateModified'' \<mapsto> JStr tsModified))"

text \<open>
  The host of a conversion run: the settings and the field mapper, the task classifier, the
  metadata cache (the frontmatter it holds for a path, if any), the link generator (base
  path, then the path of the note), the two timestamps read while item \<open>i\<close> is converted,
  and what the host does to the call for item \<open>i\<close>: it may reject the mutation before
  anything is written, or reject the wait for fresh data after the write. The last field
  is for the calls made outside the \<open>try\<close>: \<open>env_throws c i p\<close> is the message of the error
  that the host call \<open>c\<close>, made for the item of index \<open>i\<close> with path \<open>p\<close>, throws, if it does.
\<close>

datatype host_fault = NoFault | MutationRejected string | WaitRejected string

datatype host_call = PreCheckLookup | PreCheckCache | PreCheckIsTask | LoopLookup

record ConvertEnv =
  env_settings :: Settings
  env_toUserField :: "string \<Rightarrow> string"
  env_isTaskFile :: "frontmatter \<Rightarrow> bool"
  env_cachedFrontmatter :: "string \<Rightarrow> frontmatter option"
  env_markdownLink :: "string \<Rightarrow> string \<Rightarrow> string option"
  env_timestamps :: "nat \<Rightarrow> string \<times> string"
  env_fault :: "nat \<Rightarrow> string \<Rightarrow> host_fault"
  env_throws :: "host_call \<Rightarrow> nat \<Rightarrow> string \<Rightarrow> string option"

text \<open>The vault: the files by path, each with the metadata bag \<open>processFrontMatter\<close> reads.\<close>

type_synonym vault = "string \<rightharpoonup> frontmatter"

text \<open>
  The loop of \<open>preCheck\<close> over the items with their indices: \<open>getAbstractFileByPath\<close>,
  \<open>getFileCache\<close> and \<open>isTaskFile\<close> are called in this order, each only when the one before
  let the round go on, and an error of any of them (\<open>Inl\<close>) leaves \<open>preCheck\<close>.
\<close>

fun preCheckLoop ::
  "ConvertEnv \<Rightarrow> vault \<Rightarrow> (nat \<times> BasesDataItem) list \<Rightarrow> string list \<Rightarrow> string + string list" where
  "preCheckLoop env docs [] alreadyTaskPaths = Inr alreadyTaskPaths"
| "preCheckLoop env docs (ix # rest) alreadyTaskPaths =
     (let sourcePath = pathOrEmpty (snd ix)
      in if sourcePath = [] then preCheckLoop env docs rest alreadyTaskPaths
         else (case env_throws env PreCheckLookup (fst ix) sourcePath of
                 Some thrown \<Rightarrow> Inl thrown
               | None \<Rightarrow>
                   if docs sourcePath = None then preCheckLoop env docs rest alreadyTaskPaths
                   else (case env_throws env PreCheckCache (fst ix) sourcePath of
                           Some thrown \<Rightarrow> Inl thrown
                         | None \<Rightarrow>
                             (case env_cachedFrontmatter env sourcePath of
                                None \<Rightarrow> preCheckLoop env docs rest alreadyTaskPaths
                              | Some fm \<Rightarrow>
                                  (case env_throws env PreCheckIsTask (fst ix) sourcePath of
                                     Some thrown \<Rightarrow> Inl thrown
                                   | None \<Rightarrow>
                                       preCheckLoop env docs rest
                                         (if env_isTaskFile env fm
                                          then setAdd sourcePath alreadyTaskPaths
                                          else alreadyTaskPaths))))))"

record ConvertPreCheckResult =
  toConvert :: int
  alreadyTasks :: nat
  alreadyTaskPaths :: "string list"

definition convertPreCheck ::
  "ConvertEnv \<Rightarrow> vault \<Rightarrow> BasesDataItem list \<Rightarrow> string + ConvertPreCheckResult" where
  "convertPreCheck env docs items =
     (case preCheckLoop env docs (enumerate 0 items) [] of
        Inl thrown \<Rightarrow> Inl thrown
      | Inr paths \<Rightarrow>
          Inr \<lparr>toConvert = int (length items) - int (length paths),
               alreadyTasks = length paths,
               alreadyTaskPaths = paths\<rparr>)"

text \<open>
  \<open>convertSingleNote\<close> for the item of index \<open>i\<close>: \<open>Inl\<close> is the message of the error it
  throws, with the vault as the throw leaves it; \<open>Inr\<close> is the vault after the write.
\<close>

definition convertSingleNote ::
  "ConvertEnv \<Rightarrow> BulkConvertOptions \<Rightarrow> nat \<Rightarrow> string \<Rightarrow> frontmatter \<Rightarrow> vault
     \<Rightarrow> (string \<times> vault) + vault" where
  "convertSingleNote env options i filePath fm docs =
     (let baseLink = (case baseFilePath options of
                        Some b \<Rightarrow> env_markdownLink env b filePath | None \<Rightarrow> None);
          written = docs(filePath \<mapsto>
                      convertFrontmatter (env_settings env) (env_toUserField env) options baseLink
                        (fst (env_timestamps env i)) (snd (env_timestamps env i)) fm)
      in case env_fault env i filePath of
           MutationRejected msg \<Rightarrow> Inl (msg, docs)
         | WaitRejected msg \<Rightarrow> Inl (msg, written)
         | NoFault \<Rightarrow> Inr written)"

type_synonym conversion_state = "BulkConvertResult \<times> vault"

text \<open>The status line \<open>`Converting ${i + 1} of ${total}...`\<close>.\<close>

definition convertingStatus :: "nat \<Rightarrow> nat \<Rightarrow> string" where
  "convertingStatus current ntotal =
     ''Converting '' @ digitsOf current @ '' of '' @ digitsOf ntotal @ ''...''"

text \<open>
  One round of the \<open>for\<close> loop of \<open>convertNotes\<close>. The progress callback and the lookup of
  the file stand outside the \<open>try\<close>: an error of either ends the round with it (\<open>Inl\<close>).
\<close>

definition convertStep ::
  "ConvertEnv \<Rightarrow> BulkConvertOptions \<Rightarrow> ConvertPreCheckResult \<Rightarrow> nat \<Rightarrow> conversion_state
     \<Rightarrow> nat \<times> BasesDataItem \<Rightarrow> string + conversion_state" where
  "convertStep env options preCheck ntotal st ix =
     (let result = fst st; docs = snd st; i = fst ix; item = snd ix;
          sourcePath = pathOrEmpty item
      in case reportProgress (conv_onProgress options) (i + 1) ntotal
                (convertingStatus (i + 1) ntotal) of
           Some thrown \<Rightarrow> Inl thrown
         | None \<Rightarrow>
             if sourcePath \<in> set (alreadyTaskPaths preCheck)
             then Inr (result\<lparr>conv_skipped := conv_skipped result + 1\<rparr>, docs)
             else (case env_throws env LoopLookup i sourcePath of
                     Some thrown \<Rightarrow> Inl thrown
                   | None \<Rightarrow>
                       Inr (case docs sourcePath of
                              None \<Rightarrow>
                                (result\<lparr>conv_failed := conv_failed result + 1,
                                        conv_errors := conv_errors result
                                          @ [''File not found: '' @ sourcePath]\<rparr>,
                                 docs)
                            | Some fm \<Rightarrow>
                                (case convertSingleNote env options i sourcePath fm docs of
                                   Inr docs' \<Rightarrow>
                                     (result\<lparr>converted := converted result + 1,
                                             convertedPaths := convertedPaths result @ [sourcePath]\<rparr>,
                                      docs')
                                 | Inl (errorMsg, docs') \<Rightarrow>
                                     (result\<lparr>conv_failed := conv_failed result + 1,
                                             conv_errors := conv_errors result
                                                @ [''Error for '' @ sourcePath @ '': '' @ errorMsg]\<rparr>,
                                      docs')))))"

text \<open>
  The loop: it answers the result (\<open>Inr\<close>) after the last item, or the error of the round that
  threw (\<open>Inl\<close>); either way with the vault as the rounds so far have left it.
\<close>

fun convertLoop ::
  "ConvertEnv \<Rightarrow> BulkConvertOptions \<Rightarrow> ConvertPreCheckResult \<Rightarrow> nat \<Rightarrow> (nat \<times> BasesDataItem) list
     \<Rightarrow> conversion_state \<Rightarrow> (string + BulkConvertResult) \<times> vault" where
  "convertLoop env options preCheck ntotal [] st = (Inr (fst st), snd st)"
| "convertLoop env options preCheck ntotal (ix # rest) st =
     (case convertStep env options preCheck ntotal st ix of
        Inl thrown \<Rightarrow> (Inl thrown, snd st)
      | Inr st' \<Rightarrow> convertLoop env options preCheck ntotal rest st')"

definition emptyConvertResult :: BulkConvertResult where
  "emptyConvertResult =
     \<lparr>converted = 0, conv_skipped = 0, conv_failed = 0, conv_errors = [], convertedPaths = []\<rparr>"

text \<open>
  \<open>convertNotes\<close>: the structured result, or (\<open>Inl\<close>) the error with which the returned
  promise rejects; and the vault as the run leaves it.
\<close>

definition convertNotes ::
  "ConvertEnv \<Rightarrow> vault \<Rightarrow> BasesDataItem list \<Rightarrow> BulkConvertOptions
     \<Rightarrow> (string + BulkConvertResult) \<times> vault" where
  "convertNotes env docs items options =
     (if length items = 0 then (Inr emptyConvertResult, docs)
      else (case reportProgress (conv_onProgress options) 0 (length items)
                   ''Checking existing tasks...'' of
              Some thrown \<Rightarrow> (Inl thrown, docs)
            | None \<Rightarrow>
                (case convertPreCheck env docs items of
                   Inl thrown \<Rightarrow> (Inl thrown, docs)
                 | Inr preCheck \<Rightarrow>
                     convertLoop env options preCheck (length items) (enumerate 0 items)
                       (emptyConvertResult, docs))))"

text \<open>
  An item of index \<open>i\<close> fails in \<open>convertNotes\<close> when it is not skipped as a task and
  either its path names no file of the vault or the host rejects its conversion.
\<close>

definition conversionFails ::
  "ConvertEnv \<Rightarrow> vault \<Rightarrow> ConvertPreCheckResult \<Rightarrow> nat \<times> BasesDataItem \<Rightarrow> bool" where
  "conversionFails env docs preCheck ix =
     (pathOrEmpty (snd ix) \<notin> set (alreadyTaskPaths preCheck) \<and>
      (docs (pathOrEmpty (snd ix)) = None \<or>
       env_fault env (fst ix) (pathOrEmpty (snd ix)) \<noteq> NoFault))"

text \<open>
  What throws outside the \<open>try\<close> of \<open>convertNotes\<close>: the progress call before the pre-check,
  the pre-check, and in a round the progress call or, for an item that is not skipped, the
  lookup of its file.
\<close>

definition roundThrows ::
  "ConvertEnv \<Rightarrow> BulkConvertOptions \<Rightarrow> ConvertPreCheckResult \<Rightarrow> nat \<Rightarrow> nat \<times> BasesDataItem \<Rightarrow> bool" where
  "roundThrows env options preCheck ntotal ix =
     (reportProgress (conv_onProgress options) (fst ix + 1) ntotal
        (convertingStatus (fst ix + 1) ntotal) \<noteq> None \<or>
      (pathOrEmpty (snd ix) \<notin> set (alreadyTaskPaths preCheck) \<and>
       env_throws env LoopLookup (fst ix) (pathOrEmpty (snd ix)) \<noteq> None))"

definition conversionRejects ::
  "ConvertEnv \<Rightarrow> vault \<Rightarrow> BasesDataItem list \<Rightarrow> BulkConvertOptions \<Rightarrow> bool" where
  "conversionRejects env docs items options =
     (length items > 0 \<and>
      (reportProgress (conv_onProgress options) 0 (length items) ''Checking existing tasks...''
         \<noteq> None \<or>
       (case convertPreCheck env docs items of
          Inl thrown \<Rightarrow> True
        | Inr preCheck \<Rightarrow>
            list_ex (roundThrows env options preCheck (length items)) (enumerate 0 items))))"
section \<open>The query watcher (BasesQueryWatcher)\<close>

record NotificationItem =
  ni_path :: string
  ni_title :: string
  ni_isTask :: "bool option"
  ni_status :: "string option"

record MonitoredBase =
  mb_path :: string
  mb_name :: string
  snoozedUntil :: int
  lastResultCount :: nat
  cachedPaths :: "string set"

text \<open>The options the notification modal is opened with.\<close>

record Notification =
  baseFilePath_of :: string
  baseName_of :: string
  items_of :: "NotificationItem list"
  maxDisplayItems :: nat

text \<open>
  The host's timers. A timer is armed by \<open>setTimeout\<close> or \<open>setInterval\<close>, which answer a
  fresh positive handle, and stays in the table until it fires (a timeout) or is cleared;
  \<open>due\<close> is the time in milliseconds at which it fires.
\<close>

datatype timer_kind = StartupScan | Debounce | PeriodicScan

record timer =
  tid :: nat
  kind :: timer_kind
  due :: int

datatype listener_kind = TaskUpdated | MetadataChanged | FileDeleted | FileRenamed

text \<open>
  The watcher with the part of the host it acts on. The first nine fields are the fields of
  the class (a handle or an event reference is \<open>None\<close> when the field is \<open>null\<close>). Then the
  host: the timer table, the subscriptions and the handle counter. The last three fields
  record what the watcher does to the outside: the modals it opens, the queries it hands to
  \<open>evaluateBaseQuery\<close>, and for every evaluation pass (a call of \<open>evaluatePendingBases\<close>
  that finds a query pending; one that finds none returns at once) the pending set it takes.
\<close>

record watcher =
  monitoredBases :: "(string \<times> MonitoredBase) list"
  taskUpdateListener :: "nat option"
  metadataListener :: "nat option"
  fileDeleteListener :: "nat option"
  fileRenameListener :: "nat option"
  scanTimeout :: "nat option"
  pendingEvaluations :: "string list"
  evaluationDebounceTimer :: "nat option"
  initialized :: bool
  timers :: "timer list"
  subscriptions :: "(nat \<times> listener_kind) list"
  nextHandle :: nat
  dispatched :: "Notification list"
  evaluated :: "string list"
  passes :: "string list list"

definition EVALUATION_DEBOUNCE_MS :: int where "EVALUATION_DEBOUNCE_MS = 1000"
definition STARTUP_SCAN_DELAY_MS :: int where "STARTUP_SCAN_DELAY_MS = 5000"
definition PERIODIC_SCAN_INTERVAL_MS :: int where "PERIODIC_SCAN_INTERVAL_MS = 5 * 60 * 1000"

text \<open>\<open>setTimeout\<close> and \<open>setInterval\<close> at time \<open>now\<close>: the new handle and the new state.\<close>

definition armTimer :: "timer_kind \<Rightarrow> int \<Rightarrow> int \<Rightarrow> watcher \<Rightarrow> nat \<times> watcher" where
  "armTimer k delay now w =
     (let h = nextHandle w + 1
      in (h, w\<lparr>timers := timers w @ [\<lparr>tid = h, kind = k, due = now + delay\<rparr>],
                nextHandle := h\<rparr>))"

definition clearTimeout :: "nat \<Rightarrow> watcher \<Rightarrow> watcher" where
  "clearTimeout h w = w\<lparr>timers := filter (\<lambda>t. tid t \<noteq> h) (timers w)\<rparr>"

definition subscribe :: "listener_kind \<Rightarrow> watcher \<Rightarrow> nat \<times> watcher" where
  "subscribe k w =
     (let h = nextHandle w + 1
      in (h, w\<lparr>subscriptions := subscriptions w @ [(h, k)], nextHandle := h\<rparr>))"

definition offref :: "nat \<Rightarrow> watcher \<Rightarrow> watcher" where
  "offref h w = w\<lparr>subscriptions := filter (\<lambda>s. fst s \<noteq> h) (subscriptions w)\<rparr>"

definition initialize :: "int \<Rightarrow> watcher \<Rightarrow> watcher" where
  "initialize now w =
     (if initialized w then w
      else (let w1 = w\<lparr>initialized := True\<rparr>;
                (h, w2) = armTimer StartupScan STARTUP_SCAN_DELAY_MS now w1
            in w2\<lparr>scanTimeout := Some h\<rparr>))"

definition destroy :: "watcher \<Rightarrow> watcher" where
  "destroy w =
     (let w1 = (case scanTimeout w of
                  Some h \<Rightarrow> (clearTimeout h w)\<lparr>scanTimeout := None\<rparr> | None \<Rightarrow> w);
          w2 = (case evaluationDebounceTimer w1 of
                  Some h \<Rightarrow> (clearTimeout h w1)\<lparr>evaluationDebounceTimer := None\<rparr> | None \<Rightarrow> w1);
          w3 = (case taskUpdateListener w2 of
                  Some h \<Rightarrow> (offref h w2)\<lparr>taskUpdateListener := None\<rparr> | None \<Rightarrow> w2);
          w4 = (case metadataListener w3 of
                  Some h \<Rightarrow> (offref h w3)\<lparr>metadataListener := None\<rparr> | None \<Rightarrow> w3);
          w5 = (case fileDeleteListener w4 of
                  Some h \<Rightarrow> (offref h w4)\<lparr>fileDeleteListener := None\<rparr> | None \<Rightarrow> w4);
          w6 = (case fileRenameListener w5 of
                  Some h \<Rightarrow> (offref h w5)\<lparr>fileRenameListener := None\<rparr> | None \<Rightarrow> w5)
      in w6\<lparr>monitoredBases := [], pendingEvaluations := [], initialized := False\<rparr>)"

text \<open>
  What \<open>parseYaml\<close> makes of a base file: the top-level \<open>name\<close>, \<open>notify\<close> and \<open>source\<close>,
  and, when \<open>views\<close> is an array, the \<open>notify\<close> of each view.
\<close>

record ParsedBase =
  pb_name :: "string option"
  pb_notify :: "jsval option"
  pb_views :: "jsval option list option"
  pb_source :: "string option"

record BaseFileConfig =
  cfg_name :: "string option"
  cfg_notify :: bool
  cfg_source :: "string option"

text \<open>\<open>None\<close> is the content \<open>parseYaml\<close> throws on.\<close>

definition parseBaseConfig :: "ParsedBase option \<Rightarrow> BaseFileConfig" where
  "parseBaseConfig content =
     (case content of
        None \<Rightarrow> \<lparr>cfg_name = None, cfg_notify = False, cfg_source = None\<rparr>
      | Some parsed \<Rightarrow>
          (let hasNotify = (pb_notify parsed = Some (JBool True));
               hasNotify' = (if \<not> hasNotify then
                               (case pb_views parsed of
                                  Some vs \<Rightarrow> list_ex (\<lambda>v. v = Some (JBool True)) vs
                                | None \<Rightarrow> False)
                             else hasNotify)
           in \<lparr>cfg_name = pb_name parsed, cfg_notify = hasNotify', cfg_source = pb_source parsed\<rparr>))"

record VFile =
  vf_path :: string
  vf_basename :: string
  vf_extension :: string

text \<open>
  The host as the watcher reads it: the files of the vault; the content of a base file
  (\<open>None\<close> when the read throws); whether the host's lookups throw while a query is
  evaluated; the results of the view that has the query open, if one has; and the fallback
  evaluation of a source filter (\<open>None\<close> when it throws).
\<close>

record WatcherHost =
  vaultFiles :: "VFile list"
  readBase :: "string \<Rightarrow> ParsedBase option option"
  lookupThrows :: "string \<Rightarrow> bool"
  openView :: "string \<Rightarrow> NotificationItem list option"
  evaluateSourceFilter :: "string \<Rightarrow> NotificationItem list option"

definition checkAndRegisterBase :: "WatcherHost \<Rightarrow> VFile \<Rightarrow> watcher \<Rightarrow> watcher" where
  "checkAndRegisterBase host file w =
     (case readBase host (vf_path file) of
        None \<Rightarrow> w
      | Some content \<Rightarrow>
          (let config = parseBaseConfig content
           in if cfg_notify config then
                (let existing = map_of (monitoredBases w) (vf_path file)
                 in w\<lparr>monitoredBases := AList.update (vf_path file)
                        \<lparr>mb_path = vf_path file,
                         mb_name = (if truthyStr (cfg_name config) then the (cfg_name config)
                                    else vf_basename file),
                         snoozedUntil = (case existing of Some e \<Rightarrow> snoozedUntil e | None \<Rightarrow> 0),
                         lastResultCount = (case existing of Some e \<Rightarrow> lastResultCount e | None \<Rightarrow> 0),
                         cachedPaths = (case existing of Some e \<Rightarrow> cachedPaths e | None \<Rightarrow> {})\<rparr>
                        (monitoredBases w)\<rparr>)
              else w\<lparr>monitoredBases := AList.delete (vf_path file) (monitoredBases w)\<rparr>))"

definition scanForMonitoredBases :: "WatcherHost \<Rightarrow> watcher \<Rightarrow> watcher" where
  "scanForMonitoredBases host w =
     foldl (\<lambda>w file. checkAndRegisterBase host file w) w
       (filter (\<lambda>f. vf_extension f = ''base'') (vaultFiles host))"

definition setupEventListeners :: "watcher \<Rightarrow> watcher" where
  "setupEventListeners w =
     (let (h1, w1) = subscribe TaskUpdated w;
          (h2, w2) = subscribe MetadataChanged (w1\<lparr>taskUpdateListener := Some h1\<rparr>);
          (h3, w3) = subscribe FileDeleted (w2\<lparr>metadataListener := Some h2\<rparr>);
          (h4, w4) = subscribe FileRenamed (w3\<lparr>fileDeleteListener := Some h3\<rparr>)
      in w4\<lparr>fileRenameListener := Some h4\<rparr>)"

text \<open>\<open>startPeriodicScan\<close>: the handle \<open>setInterval\<close> answers is not kept.\<close>

definition startPeriodicScan :: "int \<Rightarrow> watcher \<Rightarrow> watcher" where
  "startPeriodicScan now w = snd (armTimer PeriodicScan PERIODIC_SCAN_INTERVAL_MS now w)"

definition scheduleEvaluation :: "int \<Rightarrow> watcher \<Rightarrow> watcher" where
  "scheduleEvaluation now w =
     (let w1 = (case evaluationDebounceTimer w of Some h \<Rightarrow> clearTimeout h w | None \<Rightarrow> w);
          (h, w2) = armTimer Debounce EVALUATION_DEBOUNCE_MS now w1
      in w2\<lparr>evaluationDebounceTimer := Some h\<rparr>)"

definition markCached :: "string \<Rightarrow> (string \<times> MonitoredBase) list \<Rightarrow> string list \<Rightarrow> string list" where
  "markCached changedPath bases pending =
     foldl (\<lambda>p bm. if changedPath \<in> cachedPaths (snd bm) then setAdd (fst bm) p else p) pending bases"

definition markNotSnoozed :: "int \<Rightarrow> (string \<times> MonitoredBase) list \<Rightarrow> string list \<Rightarrow> string list" where
  "markNotSnoozed now bases pending =
     foldl (\<lambda>p bm. if snoozedUntil (snd bm) \<le> now then setAdd (fst bm) p else p) pending bases"

definition handlePathChange :: "int \<Rightarrow> string \<Rightarrow> watcher \<Rightarrow> watcher" where
  "handlePathChange now changedPath w =
     scheduleEvaluation now
       (w\<lparr>pendingEvaluations :=
            markNotSnoozed now (monitoredBases w)
              (markCached changedPath (monitoredBases w) (pendingEvaluations w))\<rparr>)"

text \<open>
  \<open>evaluateBaseQuery\<close>: \<open>Threw\<close> is an exception that leaves the function, which only the
  host's lookups raise; the fallback evaluation catches its own and answers \<open>null\<close>.
\<close>

datatype 'a outcome = Threw | Returned 'a

definition evaluateWithTemporaryView :: "WatcherHost \<Rightarrow> string \<Rightarrow> NotificationItem list option" where
  "evaluateWithTemporaryView host filePath =
     (case readBase host filePath of
        None \<Rightarrow> None
      | Some content \<Rightarrow>
          (let config = parseBaseConfig content
           in if \<not> truthyStr (cfg_source config) then None
              else evaluateSourceFilter host (the (cfg_source config))))"

definition evaluateBaseQuery :: "WatcherHost \<Rightarrow> string \<Rightarrow> NotificationItem list option outcome" where
  "evaluateBaseQuery host basePath =
     (if lookupThrows host basePath then Threw
      else if \<not> list_ex (\<lambda>f. vf_path f = basePath) (vaultFiles host) then Returned None
      else (case openView host basePath of
              Some items \<Rightarrow> Returned (Some items)
            | None \<Rightarrow> Returned (evaluateWithTemporaryView host basePath)))"

definition showNotification :: "MonitoredBase \<Rightarrow> NotificationItem list \<Rightarrow> watcher \<Rightarrow> watcher" where
  "showNotification monitored items w =
     w\<lparr>dispatched := dispatched w @
         [\<lparr>baseFilePath_of = mb_path monitored, baseName_of = mb_name monitored,
           items_of = items, maxDisplayItems = 5\<rparr>]\<rparr>"

text \<open>
  What the loop of \<open>evaluatePendingBases\<close> writes into the record of a query once its
  evaluation has returned: results that are \<open>null\<close> or empty clear the cached set.
\<close>

definition recordResults :: "MonitoredBase \<Rightarrow> NotificationItem list option \<Rightarrow> MonitoredBase" where
  "recordResults monitored results =
     (case results of
        Some rs \<Rightarrow>
          if length rs > 0
          then monitored\<lparr>cachedPaths := set (map ni_path rs), lastResultCount := length rs\<rparr>
          else monitored\<lparr>cachedPaths := {}, lastResultCount := 0\<rparr>
      | None \<Rightarrow> monitored\<lparr>cachedPaths := {}, lastResultCount := 0\<rparr>)"

text \<open>
  One round of the loop of \<open>evaluatePendingBases\<close>; \<open>clock basePath\<close> is what \<open>Date.now()\<close>
  answers when the snooze of \<open>basePath\<close> is checked. A pass is taken as one step: no other
  handler of the watcher runs while the loop waits for an evaluation.
\<close>

definition evaluateOne :: "WatcherHost \<Rightarrow> (string \<Rightarrow> int) \<Rightarrow> watcher \<Rightarrow> string \<Rightarrow> watcher" where
  "evaluateOne host clock w basePath =
     (case map_of (monitoredBases w) basePath of
        None \<Rightarrow> w
      | Some monitored \<Rightarrow>
          if snoozedUntil monitored > clock basePath then w
          else
            (let w1 = w\<lparr>evaluated := evaluated w @ [basePath]\<rparr>
             in case evaluateBaseQuery host basePath of
                  Threw \<Rightarrow> w1
                | Returned results \<Rightarrow>
                    (let monitored' = recordResults monitored results;
                         w2 = w1\<lparr>monitoredBases :=
                                   AList.update basePath monitored' (monitoredBases w1)\<rparr>
                     in case results of
                          Some rs \<Rightarrow> if length rs > 0 then showNotification monitored' rs w2 else w2
                        | None \<Rightarrow> w2)))"

definition evaluatePendingBases :: "WatcherHost \<Rightarrow> (string \<Rightarrow> int) \<Rightarrow> watcher \<Rightarrow> watcher" where
  "evaluatePendingBases host clock w =
     (if length (pendingEvaluations w) = 0 then w
      else (let toEvaluate = pendingEvaluations w;
                w0 = w\<lparr>passes := passes w @ [toEvaluate], pendingEvaluations := []\<rparr>
            in foldl (evaluateOne host clock) w0 toEvaluate))"

definition snoozeBase :: "int \<Rightarrow> string \<Rightarrow> int \<Rightarrow> watcher \<Rightarrow> watcher" where
  "snoozeBase now basePath durationMinutes w =
     (case map_of (monitoredBases w) basePath of
        Some monitored \<Rightarrow>
          w\<lparr>monitoredBases := AList.update basePath
               (monitored\<lparr>snoozedUntil := now + durationMinutes * 60 * 1000\<rparr>) (monitoredBases w)\<rparr>
      | None \<Rightarrow> w)"

definition showNotificationFromView ::
  "int \<Rightarrow> string \<Rightarrow> string \<Rightarrow> NotificationItem list \<Rightarrow> watcher \<Rightarrow> watcher" where
  "showNotificationFromView now basePath baseName items w =
     (if length items = 0 then w
      else
        (let fresh = \<lparr>mb_path = basePath, mb_name = baseName, snoozedUntil = 0,
                      lastResultCount = 0, cachedPaths = {}\<rparr>;
             w1 = (case map_of (monitoredBases w) basePath of
                     Some m \<Rightarrow> w
                   | None \<Rightarrow> w\<lparr>monitoredBases := AList.update basePath fresh (monitoredBases w)\<rparr>);
             monitored = (case map_of (monitoredBases w) basePath of Some m \<Rightarrow> m | None \<Rightarrow> fresh)
         in if snoozedUntil monitored > now then w1
            else
              (let monitored' = monitored\<lparr>cachedPaths := set (map ni_path items),
                                           lastResultCount := length items\<rparr>
               in showNotification monitored' items
                    (w1\<lparr>monitoredBases :=
                          AList.update basePath monitored' (monitoredBases w1)\<rparr>))))"

definition triggerEvaluation :: "WatcherHost \<Rightarrow> (string \<Rightarrow> int) \<Rightarrow> string \<Rightarrow> watcher \<Rightarrow> watcher" where
  "triggerEvaluation host clock basePath w =
     evaluatePendingBases host clock
       (w\<lparr>pendingEvaluations := setAdd basePath (pendingEvaluations w)\<rparr>)"

text \<open>
  The callbacks of the three timers, run by the host at time \<open>now\<close>. A timeout leaves the
  table when it fires; the interval is armed again one period later.
\<close>

definition startupCallback :: "WatcherHost \<Rightarrow> int \<Rightarrow> watcher \<Rightarrow> watcher" where
  "startupCallback host now w =
     startPeriodicScan now (setupEventListeners (scanForMonitoredBases host w))"

definition debounceCallback :: "WatcherHost \<Rightarrow> int \<Rightarrow> watcher \<Rightarrow> watcher" where
  "debounceCallback host now w =
     evaluatePendingBases host (\<lambda>_. now) (w\<lparr>evaluationDebounceTimer := None\<rparr>)"

definition periodicCallback :: "WatcherHost \<Rightarrow> int \<Rightarrow> watcher \<Rightarrow> watcher" where
  "periodicCallback host now w =
     (let w1 = scanForMonitoredBases host w;
          w2 = w1\<lparr>pendingEvaluations :=
                    markNotSnoozed now (monitoredBases w1) (pendingEvaluations w1)\<rparr>
      in if length (pendingEvaluations w2) > 0 then evaluatePendingBases host (\<lambda>_. now) w2
         else w2)"

definition fireTimer :: "WatcherHost \<Rightarrow> timer \<Rightarrow> watcher \<Rightarrow> watcher" where
  "fireTimer host t w =
     (case kind t of
        StartupScan \<Rightarrow>
          startupCallback host (due t) (w\<lparr>timers := filter (\<lambda>u. tid u \<noteq> tid t) (timers w)\<rparr>)
      | Debounce \<Rightarrow>
          debounceCallback host (due t) (w\<lparr>timers := filter (\<lambda>u. tid u \<noteq> tid t) (timers w)\<rparr>)
      | PeriodicScan \<Rightarrow>
          periodicCallback host (due t)
            (w\<lparr>timers := map (\<lambda>u. if tid u = tid t
                                    then u\<lparr>due := due u + PERIODIC_SCAN_INTERVAL_MS\<rparr> else u)
                              (timers w)\<rparr>))"

text \<open>
  The host's timer loop. \<open>nextDue t\<close> is the timer the host fires next when the time has come
  to \<open>t\<close>: the one due first among those due by \<open>t\<close>, the one armed first among equals.
  \<open>settle host t\<close> lets the time pass to \<open>t\<close>: it fires the timers that are due by then, one
  after the other, each at its due time, until none is due. A timeout fires once; an interval
  due at \<open>d\<close> fires at \<open>d\<close>, \<open>d + PERIODIC_SCAN_INTERVAL_MS\<close>, and so on, and the startup
  timeout arms the interval when it fires: \<open>firings t\<close> counts the firings a timer of the table
  stands for up to \<open>t\<close>, and their sum over the table bounds the rounds of the loop.
\<close>

fun earliest :: "timer list \<Rightarrow> timer option" where
  "earliest [] = None"
| "earliest (tm # tms) =
     (case earliest tms of
        None \<Rightarrow> Some tm
      | Some u \<Rightarrow> if due tm \<le> due u then Some tm else Some u)"

definition nextDue :: "int \<Rightarrow> timer list \<Rightarrow> timer option" where
  "nextDue t tms = earliest (filter (\<lambda>tm. due tm \<le> t) tms)"

definition firings :: "int \<Rightarrow> timer \<Rightarrow> nat" where
  "firings t tm =
     (if t < due tm then 0
      else case kind tm of
             Debounce \<Rightarrow> 1
           | StartupScan \<Rightarrow> nat ((t - due tm) div PERIODIC_SCAN_INTERVAL_MS) + 1
           | PeriodicScan \<Rightarrow> nat ((t - due tm) div PERIODIC_SCAN_INTERVAL_MS) + 1)"

fun fireDue :: "nat \<Rightarrow> WatcherHost \<Rightarrow> int \<Rightarrow> watcher \<Rightarrow> watcher" where
  "fireDue 0 host t w = w"
| "fireDue (Suc rounds) host t w =
     (case nextDue t (timers w) of
        None \<Rightarrow> w
      | Some tm \<Rightarrow> fireDue rounds host t (fireTimer host tm w))"

definition settle :: "WatcherHost \<Rightarrow> int \<Rightarrow> watcher \<Rightarrow> watcher" where
  "settle host t w = fireDue (sum_list (map (firings t) (timers w))) host t w"

text \<open>
  A run of change events: before the event at time \<open>t\<close> the host lets the time pass to \<open>t\<close>.
  \<open>runChanges\<close> feeds the events (time, changed path) in order.
\<close>

fun runChanges :: "WatcherHost \<Rightarrow> (int \<times> string) list \<Rightarrow> watcher \<Rightarrow> watcher" where
  "runChanges host [] w = w"
| "runChanges host (e # es) w =
     runChanges host es (handlePathChange (fst e) (snd e) (settle host (fst e) w))"
section \<open>Auxiliary notions for the watcher\<close>

text \<open>
  The record of a query after one round of the loop, given the record before it: unchanged
  when the query is snoozed or its evaluation throws, the recorded results otherwise.
\<close>

definition afterEvaluation ::
  "WatcherHost \<Rightarrow> (string \<Rightarrow> int) \<Rightarrow> string \<Rightarrow> MonitoredBase \<Rightarrow> MonitoredBase" where
  "afterEvaluation host clock basePath monitored =
     (if snoozedUntil monitored > clock basePath then monitored
      else case evaluateBaseQuery host basePath of
             Threw \<Rightarrow> monitored
           | Returned results \<Rightarrow> recordResults monitored results)"

text \<open>
  The fallback evaluation of a query throws when the read of its file throws, or when the
  file names a source and the evaluation of the source filter throws. \<open>evaluateWithTemporaryView\<close>
  catches the error and answers \<open>null\<close>.
\<close>

definition fallbackThrows :: "WatcherHost \<Rightarrow> string \<Rightarrow> bool" where
  "fallbackThrows host filePath =
     (case readBase host filePath of
        None \<Rightarrow> True
      | Some content \<Rightarrow>
          truthyStr (cfg_source (parseBaseConfig content)) \<and>
          evaluateSourceFilter host (the (cfg_source (parseBaseConfig content))) = None)"

text \<open>
  \<open>evaluateBaseQuery\<close> comes to the fallback evaluation when the lookup of the file returns
  the file and no view has the query open.
\<close>

definition reachesFallback :: "WatcherHost \<Rightarrow> string \<Rightarrow> bool" where
  "reachesFallback host basePath =
     (\<not> lookupThrows host basePath \<and> list_ex (\<lambda>f. vf_path f = basePath) (vaultFiles host) \<and>
      openView host basePath = None)"

text \<open>A query is due in a state when it is registered there and its snooze has run out.\<close>

definition isDue :: "(string \<Rightarrow> int) \<Rightarrow> watcher \<Rightarrow> string \<Rightarrow> bool" where
  "isDue clock w basePath =
     (case map_of (monitoredBases w) basePath of
        Some monitored \<Rightarrow> snoozedUntil monitored \<le> clock basePath
      | None \<Rightarrow> False)"

text \<open>
  Every writer of the registry files a record under its own path; this is the shape of the
  registry in every state the watcher reaches.
\<close>

definition registryOk :: "watcher \<Rightarrow> bool" where
  "registryOk w = list_all (\<lambda>bm. mb_path (snd bm) = fst bm) (monitoredBases w)"

text \<open>The debounce timers that are armed.\<close>

definition debounceTimers :: "watcher \<Rightarrow> timer list" where
  "debounceTimers w = filter (\<lambda>tm. kind tm = Debounce) (timers w)"

text \<open>
  Two shapes of a schedule of change events (time, path): a burst, in which every event
  follows the one before it by less than the debounce delay, and a spaced schedule, in
  which it follows by more than the delay.
\<close>

fun withinDebounceWindow :: "(int \<times> string) list \<Rightarrow> bool" where
  "withinDebounceWindow (e # f # es) =
     (fst e \<le> fst f \<and> fst f - fst e < EVALUATION_DEBOUNCE_MS \<and> withinDebounceWindow (f # es))"
| "withinDebounceWindow es = True"

fun separatedByMoreThanDelay :: "(int \<times> string) list \<Rightarrow> bool" where
  "separatedByMoreThanDelay (e # f # es) =
     (fst f - fst e > EVALUATION_DEBOUNCE_MS \<and> separatedByMoreThanDelay (f # es))"
| "separatedByMoreThanDelay es = True"

text \<open>
  The two states of the debounce machinery: no timer armed, or one timer armed, the one the
  watcher holds, set at time \<open>t\<close>.
\<close>

definition quiet :: "watcher \<Rightarrow> bool" where
  "quiet w = (evaluationDebounceTimer w = None \<and> debounceTimers w = [])"

definition armed :: "int \<Rightarrow> watcher \<Rightarrow> bool" where
  "armed t w = (\<exists>h. evaluationDebounceTimer w = Some h \<and>
                   debounceTimers w = [\<lparr>tid = h, kind = Debounce, due = t + EVALUATION_DEBOUNCE_MS\<rparr>])"

text \<open>
  The timers other than the debounce timer (the startup timeout, the periodic rescan) are
  at rest until \<open>t\<close> when none of them is due by then.
\<close>

definition othersRestUntil :: "int \<Rightarrow> watcher \<Rightarrow> bool" where
  "othersRestUntil t w = list_all (\<lambda>tm. kind tm = Debounce \<or> t < due tm) (timers w)"

text \<open>Some registered query is not snoozed at time \<open>t\<close>: a change event at \<open>t\<close> marks it pending.\<close>

definition someQueryAwake :: "int \<Rightarrow> watcher \<Rightarrow> bool" where
  "someQueryAwake t w = list_ex (\<lambda>bm. snoozedUntil (snd bm) \<le> t) (monitoredBases w)"

section \<open>Sample data\<close>

text \<open>A small batch, a task service, a vault and a conversion host, for concrete runs.\<close>

definition sampleItem :: "string option \<Rightarrow> BasesDataItem" where
  "sampleItem p = \<lparr>item_path = p, item_name = None, item_fileBasename = None, item_properties = None\<rparr>"

definition sampleItems :: "BasesDataItem list" where
  "sampleItems = [sampleItem (Some ''Docs/A.md''), sampleItem (Some ''Docs/B.md''),
                  sampleItem None, sampleItem (Some ''Docs/C.md'')]"

definition sampleTasks :: "TaskInfo list" where
  "sampleTasks = [\<lparr>task_path = ''Tasks/A.md'', task_projects = Some [''[[A]]'']\<rparr>]"

definition sampleService :: task_service where
  "sampleService i d =
     (if i = 1 then NoFile else if i = 3 then Thrown ''disk full''
      else FileCreated (''Tasks/'' @ td_title d @ ''.md''))"

definition sampleCreationOptions :: BulkCreationOptions where
  "sampleCreationOptions = \<lparr>skipExisting = True, useParentAsProject = True, onProgress = None\<rparr>"

definition sampleSettings :: Settings where
  "sampleSettings =
     \<lparr>taskIdentificationMethod = ''tag'', taskPropertyName = [], taskPropertyValue = [],
       taskTag = ''task'', defaultTaskStatus = ''open'', defaultTaskPriority = ''normal''\<rparr>"

definition sampleVault :: vault where
  "sampleVault =
     [''Docs/A.md'' \<mapsto> [''tags'' \<mapsto> JArr [JStr ''task'']],
      ''Docs/B.md'' \<mapsto> [''title'' \<mapsto> JStr ''B''],
      ''Docs/C.md'' \<mapsto> Map.empty]"

definition sampleEnv :: ConvertEnv where
  "sampleEnv =
     \<lparr>env_settings = sampleSettings,
      env_toUserField = id,
      env_isTaskFile = (\<lambda>fm. case fm ''tags'' of Some (JArr xs) \<Rightarrow> JStr ''task'' \<in> set xs | _ \<Rightarrow> False),
      env_cachedFrontmatter = sampleVault,
      env_markdownLink = (\<lambda>b p. None),
      env_timestamps = (\<lambda>i. (''2026-01-16T10:00:00'', ''2026-01-16T10:00:00'')),
      env_fault = (\<lambda>i p. if i = 3 then MutationRejected ''read-only file'' else NoFault),
      env_throws = (\<lambda>c i p. None)\<rparr>"

definition sampleConvertOptions :: BulkConvertOptions where
  "sampleConvertOptions = \<lparr>applyDefaults = True, linkToBase = False, baseFilePath = None,
      conv_onProgress = None\<rparr>"

definition emptyWatcher :: watcher where
  "emptyWatcher =
     \<lparr>monitoredBases = [], taskUpdateListener = None, metadataListener = None,
      fileDeleteListener = None, fileRenameListener = None, scanTimeout = None,
      pendingEvaluations = [], evaluationDebounceTimer = None, initialized = False,
      timers = [], subscriptions = [], nextHandle = 0,
      dispatched = [], evaluated = [], passes = []\<rparr>"

definition sampleNote :: "string \<Rightarrow> NotificationItem" where
  "sampleNote p = \<lparr>ni_path = p, ni_title = p, ni_isTask = Some False, ni_status = None\<rparr>"

definition sampleBaseFile :: "string \<Rightarrow> VFile" where
  "sampleBaseFile n = \<lparr>vf_path = n @ ''.base'', vf_basename = n, vf_extension = ''base''\<rparr>"

definition sampleWatcherHost :: WatcherHost where
  "sampleWatcherHost =
     \<lparr>vaultFiles = [sampleBaseFile ''q1'', sampleBaseFile ''q2'', sampleBaseFile ''q3'',
                     sampleBaseFile ''q4''],
      readBase = (\<lambda>p. Some (Some \<lparr>pb_name = None, pb_notify = Some (JBool True),
                                     pb_views = None, pb_source = Some ''docs''\<rparr>)),
      lookupThrows = (\<lambda>p. p = ''q2.base''),
      openView = (\<lambda>p. if p = ''q1.base'' then Some [sampleNote ''Docs/a.md'', sampleNote ''Docs/b.md'']
                       else if p = ''q3.base'' then Some [] else None),
      evaluateSourceFilter = (\<lambda>src. Some [sampleNote ''Docs/a.md''])\<rparr>"

definition sampleBase :: "string \<Rightarrow> int \<Rightarrow> string set \<Rightarrow> MonitoredBase" where
  "sampleBase p until cached =
     \<lparr>mb_path = p, mb_name = p, snoozedUntil = until, lastResultCount = 1, cachedPaths = cached\<rparr>"

definition sampleWatcher :: watcher where
  "sampleWatcher =
     emptyWatcher
       \<lparr>monitoredBases :=
          [(''q1.base'', sampleBase ''q1.base'' 0 {''Docs/old.md''}),
           (''q2.base'', sampleBase ''q2.base'' 0 {''Docs/y.md''}),
           (''q3.base'', sampleBase ''q3.base'' 0 {''Docs/z.md''}),
           (''q4.base'', sampleBase ''q4.base'' 900000 {''Docs/a.md''})],
        pendingEvaluations := [''q1.base'', ''q2.base'', ''q3.base'', ''q4.base''],
        initialized := True\<rparr>"

section \<open>Properties of the reference resolver\<close>

lemma toLowerChar_idem: "toLowerChar (toLowerChar c) = toLowerChar c"
proof -
  define n where "n = (of_char c :: nat)"
  show ?thesis
  proof (cases "(65 \<le> n \<and> n \<le> 90) \<or> (192 \<le> n \<and> n \<le> 222 \<and> n \<noteq> 215)")
    case False
    then show ?thesis unfolding n_def by (auto simp add: toLowerChar_def Let_def)
  next
    case True
    then have lt: "n + 32 < 256" by auto
    have oc: "(of_char (char_of (n + 32) :: char) :: nat) = n + 32"
      using lt by simp
    have low: "toLowerChar c = char_of (n + 32)"
      using True by (simp add: toLowerChar_def n_def Let_def)
    have "\<not> ((65 \<le> n + 32 \<and> n + 32 \<le> 90) \<or> (192 \<le> n + 32 \<and> n + 32 \<le> 222 \<and> n + 32 \<noteq> 215))"
      using True by auto
    then have "toLowerChar (char_of (n + 32)) = char_of (n + 32)"
      unfolding toLowerChar_def Let_def oc by simp
    then show ?thesis using low by simp
  qed
qed

lemma toLowerCase_idem: "toLowerCase (toLowerCase s) = toLowerCase s"
  by (simp add: toLowerCase_def toLowerChar_idem)

lemma length_normalizePath:
  "length (normalizePath p) = (if hasMdExt p then length p - 3 else length p)"
  by (simp add: normalizePath_def toLowerCase_def stripMdExt_def)

lemma hasMdExt_length: "hasMdExt p \<Longrightarrow> 3 \<le> length p"
  by (cases "rev p" rule: rev_cases)
     (auto simp: hasMdExt_def split: list.splits dest: arg_cong[where f=length])

text \<open>
  Claim C2, as the specification states it, fails: \<open>normalizePath\<close> removes one trailing
  \<open>.md\<close>, so a path that ends in a doubled extension loses the second one only when it is
  normalized again.
\<close>

theorem normalizePath_not_idempotent:
  "normalizePath (normalizePath ''a.md.md'') \<noteq> normalizePath ''a.md.md''"
  by (simp add: normalizePath_def stripMdExt_def hasMdExt_def toLowerCase_def toLowerChar_def)

text \<open>
  Claim C2, amended: normalizing a second time changes nothing exactly when the normalized
  path does not itself still end in the extension (it is the doubled extension, and nothing
  else, that breaks idempotence).
\<close>

theorem normalizePath_idempotent_iff:
  "normalizePath (normalizePath p) = normalizePath p \<longleftrightarrow> \<not> hasMdExt (normalizePath p)"
proof
  assume eq: "normalizePath (normalizePath p) = normalizePath p"
  show "\<not> hasMdExt (normalizePath p)"
  proof
    assume h: "hasMdExt (normalizePath p)"
    from hasMdExt_length[OF h]
    have "length (normalizePath (normalizePath p)) < length (normalizePath p)"
      using h by (simp add: length_normalizePath[of "normalizePath p"])
    with eq show False by simp
  qed
next
  assume "\<not> hasMdExt (normalizePath p)"
  then show "normalizePath (normalizePath p) = normalizePath p"
    by (simp add: normalizePath_def stripMdExt_def toLowerCase_idem)
qed

theorem normalizePath_idempotent_witness:
  "normalizePath (normalizePath ''Docs/Report.MD'') = normalizePath ''Docs/Report.MD'' \<and>
   \<not> hasMdExt (normalizePath ''Docs/Report.MD'')"
  using normalizePath_idempotent_iff[of "''Docs/Report.MD''"]
  by (simp add: normalizePath_def stripMdExt_def hasMdExt_def toLowerCase_def toLowerChar_def)

lemma wikiMatch_plain:
  assumes "target \<noteq> []" "CHR '']'' \<notin> set target" "CHR ''|'' \<notin> set target"
  shows "wikiMatch (''[['' @ target @ '']]'') = Some target"
proof -
  let ?P = "\<lambda>c. c \<noteq> CHR '']'' \<and> c \<noteq> CHR ''|''"
  have all: "\<And>x. x \<in> set target \<Longrightarrow> ?P x" using assms by auto
  have tw: "takeWhile ?P (target @ '']]'') = target"
    using all by (simp add: takeWhile_append2)
  have dw: "dropWhile ?P (target @ '']]'') = '']]''"
    using all by (simp add: dropWhile_append2)
  show ?thesis
    using assms(1) by (simp add: wikiMatch_def tw dw wikiRest_def Let_def)
qed

lemma wikiMatch_alias:
  assumes "target \<noteq> []" "CHR '']'' \<notin> set target" "CHR ''|'' \<notin> set target"
      and "alias \<noteq> []" "CHR '']'' \<notin> set alias"
  shows "wikiMatch (''[['' @ target @ ''|'' @ alias @ '']]'') = Some target"
proof -
  let ?P = "\<lambda>c. c \<noteq> CHR '']'' \<and> c \<noteq> CHR ''|''"
  let ?Q = "\<lambda>c. c \<noteq> CHR '']''"
  have all: "\<And>x. x \<in> set target \<Longrightarrow> ?P x" using assms by auto
  have allq: "\<And>x. x \<in> set alias \<Longrightarrow> ?Q x" using assms by auto
  have tw: "takeWhile ?P (target @ ''|'' @ alias @ '']]'') = target"
    using all by (simp add: takeWhile_append2)
  have dw: "dropWhile ?P (target @ ''|'' @ alias @ '']]'') = ''|'' @ alias @ '']]''"
    using all by (simp add: dropWhile_append2)
  have tq: "takeWhile ?Q (alias @ '']]'') = alias"
    using allq by (simp add: takeWhile_append2)
  have dq: "dropWhile ?Q (alias @ '']]'') = '']]''"
    using allq by (simp add: dropWhile_append2)
  have "wikiRest (''|'' @ alias @ '']]'')"
    using assms(4) tq dq by (simp add: wikiRest_def)
  then show ?thesis
    using assms(1) tw dw by (simp add: wikiMatch_def Let_def)
qed

lemma dropWhile_last:
  "dropWhile P xs = ys \<Longrightarrow> ys \<noteq> [] \<Longrightarrow> last xs = last ys"
  by (metis append_self_conv2 last_appendR takeWhile_dropWhile_id)

lemma wikiRest_last: "wikiRest after \<Longrightarrow> after \<noteq> [] \<and> last after = CHR '']''"
proof -
  assume w: "wikiRest after"
  show ?thesis
  proof (cases "after = '']]''")
    case True then show ?thesis by simp
  next
    case False
    with w obtain a where a: "after = CHR ''|'' # a"
      "dropWhile (\<lambda>c. c \<noteq> CHR '']'') a = '']]''"
      by (auto simp: wikiRest_def split: list.splits)
    from dropWhile_last[OF a(2)] have "last a = CHR '']''" by simp
    moreover have "a \<noteq> []" using a(2) by auto
    ultimately show ?thesis using a(1) by simp
  qed
qed

lemma wikiMatch_last:
  assumes "wikiMatch link = Some t"
  shows "link \<noteq> [] \<and> last link = CHR '']''"
proof -
  let ?P = "\<lambda>c. c \<noteq> CHR '']'' \<and> c \<noteq> CHR ''|''"
  from assms obtain rest where l: "link = CHR ''['' # CHR ''['' # rest"
    and w: "wikiRest (dropWhile ?P rest)"
    by (auto simp: wikiMatch_def Let_def split: list.splits if_splits)
  from wikiRest_last[OF w] have ne: "dropWhile ?P rest \<noteq> []" and la: "last (dropWhile ?P rest) = CHR '']''"
    by auto
  have "last rest = last (dropWhile ?P rest)" using dropWhile_last[OF refl ne] .
  moreover have "rest \<noteq> []" using ne by auto
  ultimately show ?thesis using l la by simp
qed

lemma mdScan_skip:
  "\<not> (c = CHR '']'' \<and> (case cs of d # t \<Rightarrow> d = CHR ''('' \<and> mdTail t | [] \<Rightarrow> False)) \<Longrightarrow>
   \<not> isLineTerminator c \<Longrightarrow> mdScan (c # cs) = mdScan cs"
  by (cases "c = CHR '']''") auto

lemma mdScan_label:
  assumes "\<not> sublist '']('' label" "\<forall>c \<in> set label. \<not> isLineTerminator c"
      and "target \<noteq> []" "CHR '')'' \<notin> set target"
  shows "mdScan (label @ '']('' @ target @ '')'') = Some target"
  using assms(1,2)
proof (induction label)
  case Nil
  have "mdTail (target @ '')'')" using assms(3,4) by (simp add: mdTail_def)
  then show ?case by (simp add: butlast_append)
next
  case (Cons c label)
  have np: "\<not> prefix '']('' (c # label)" and nsub: "\<not> sublist '']('' label"
    using Cons.prems(1) by (auto simp: sublist_Cons_right)
  have nolt: "\<not> isLineTerminator c" and rest: "\<forall>c \<in> set label. \<not> isLineTerminator c"
    using Cons.prems(2) by auto
  have nohit: "\<not> (c = CHR '']'' \<and> (case label @ '']('' @ target @ '')'' of d # t \<Rightarrow> d = CHR ''('' \<and> mdTail t | [] \<Rightarrow> False))"
  proof (cases label)
    case Nil then show ?thesis by simp
  next
    case (Cons d l)
    then show ?thesis using np by auto
  qed
  have "mdScan ((c # label) @ '']('' @ target @ '')'') = mdScan (label @ '']('' @ target @ '')'')"
    using mdScan_skip[OF nohit nolt] by simp
  then show ?case using Cons.IH[OF nsub rest] by simp
qed

lemma extract_wiki:
  assumes "wikiMatch link = Some t"
  shows "extractPathFromLink link = trim t"
proof -
  have "link \<noteq> []" using assms by (auto simp: wikiMatch_def)
  then show ?thesis using assms by (simp add: extractPathFromLink_def)
qed

lemma trim_A: "trim ''A'' = ''A''"
  by (simp add: trim_def isTrimChar_def)

text \<open>
  Claim C8, as the specification states it, fails: an input that is neither a wiki link nor
  a markdown link is not returned verbatim, it is returned trimmed.
\<close>

theorem extractPathFromLink_not_verbatim:
  "wikiMatch '' A '' = None \<and> mdMatch '' A '' = None \<and> extractPathFromLink '' A '' \<noteq> '' A ''"
  by (simp add: extractPathFromLink_def wikiMatch_def mdMatch_def trim_def isTrimChar_def)

text \<open>
  Claim C8, amended. \<open>[[Target]]\<close> and \<open>[[Target|Alias]]\<close> (the target non-empty and free of
  \<open>]\<close> and \<open>|\<close>, the alias non-empty and free of \<open>]\<close>) yield the trimmed target;
  \<open>[Label](Target)\<close> (the label on one line and without \<open>](\<close>, the target non-empty and
  free of \<open>)\<close>) yields the trimmed target; any input that matches neither pattern is
  returned trimmed, as a plain path; the empty input yields the empty string. In particular
  \<open>[[A]]\<close>, \<open>[[A|B]]\<close>, \<open>[Label](A)\<close> and \<open>A\<close> all yield \<open>A\<close>.
\<close>

theorem extractPathFromLink_forms:
  "(target \<noteq> [] \<and> CHR '']'' \<notin> set target \<and> CHR ''|'' \<notin> set target \<longrightarrow>
      extractPathFromLink (''[['' @ target @ '']]'') = trim target \<and>
      (alias \<noteq> [] \<and> CHR '']'' \<notin> set alias \<longrightarrow>
         extractPathFromLink (''[['' @ target @ ''|'' @ alias @ '']]'') = trim target)) \<and>
   (\<not> sublist '']('' label \<and> (\<forall>c \<in> set label. \<not> isLineTerminator c) \<and>
    target \<noteq> [] \<and> CHR '')'' \<notin> set target \<longrightarrow>
      extractPathFromLink (''['' @ label @ '']('' @ target @ '')'') = trim target) \<and>
   (wikiMatch link = None \<and> mdMatch link = None \<longrightarrow> extractPathFromLink link = trim link) \<and>
   extractPathFromLink [] = [] \<and>
   extractPathFromLink ''[[A]]'' = ''A'' \<and> extractPathFromLink ''[[A|B]]'' = ''A'' \<and>
   extractPathFromLink ''[Label](A)'' = ''A'' \<and> extractPathFromLink ''A'' = ''A''"
proof (intro conjI impI)
  assume a: "target \<noteq> [] \<and> CHR '']'' \<notin> set target \<and> CHR ''|'' \<notin> set target"
  then show "extractPathFromLink (''[['' @ target @ '']]'') = trim target"
    using extract_wiki[OF wikiMatch_plain] by blast
  assume b: "alias \<noteq> [] \<and> CHR '']'' \<notin> set alias"
  show "extractPathFromLink (''[['' @ target @ ''|'' @ alias @ '']]'') = trim target"
    using a b extract_wiki[OF wikiMatch_alias] by blast
next
  assume a: "\<not> sublist '']('' label \<and> (\<forall>c \<in> set label. \<not> isLineTerminator c) \<and>
    target \<noteq> [] \<and> CHR '')'' \<notin> set target"
  let ?link = "''['' @ label @ '']('' @ target @ '')''"
  have "wikiMatch ?link = None"
  proof (cases "wikiMatch ?link")
    case (Some t)
    from wikiMatch_last[OF Some] show ?thesis by simp
  qed simp
  moreover have "mdMatch ?link = Some target"
    using a mdScan_label[of label target] by (simp add: mdMatch_def)
  ultimately show "extractPathFromLink ?link = trim target"
    by (simp add: extractPathFromLink_def)
next
  assume "wikiMatch link = None \<and> mdMatch link = None"
  then show "extractPathFromLink link = trim link"
    by (simp add: extractPathFromLink_def trim_def)
next
  show "extractPathFromLink [] = []" by (simp add: extractPathFromLink_def)
next
  have "wikiMatch ''[[A]]'' = Some ''A''" using wikiMatch_plain[of "''A''"] by simp
  from extract_wiki[OF this] show "extractPathFromLink ''[[A]]'' = ''A''" by (simp add: trim_A)
next
  have "wikiMatch ''[[A|B]]'' = Some ''A''" using wikiMatch_alias[of "''A''" "''B''"] by simp
  from extract_wiki[OF this] show "extractPathFromLink ''[[A|B]]'' = ''A''" by (simp add: trim_A)
next
  show "extractPathFromLink ''[Label](A)'' = ''A''"
    by (simp add: extractPathFromLink_def wikiMatch_def wikiRest_def mdMatch_def mdTail_def
        isLineTerminator_def trim_A)
next
  show "extractPathFromLink ''A'' = ''A''"
    by (simp add: extractPathFromLink_def wikiMatch_def mdMatch_def trim_A)
qed

lemma no_sublist_see: "\<not> sublist '']('' ''see''"
  by (simp add: sublist_Cons_right)

theorem extractPathFromLink_forms_witness:
  "extractPathFromLink ''[[ Docs/Plan ]]'' = ''Docs/Plan'' \<and>
   extractPathFromLink ''[[ Docs/Plan |p]]'' = ''Docs/Plan'' \<and>
   extractPathFromLink ''[see]( Docs/Plan )'' = ''Docs/Plan'' \<and>
   extractPathFromLink '' x/y '' = ''x/y''"
  using extractPathFromLink_forms[of "'' Docs/Plan ''" "''p''" "''see''" "'' x/y ''"] no_sublist_see
  by (simp add: trim_def isTrimChar_def isLineTerminator_def wikiMatch_def mdMatch_def)

lemma linksLoop_iff:
  "linksLoop S Sbase projects \<longleftrightarrow> (\<exists>r \<in> set projects. projectMatches S Sbase r)"
  by (induction projects) auto

lemma slashSegments_nonempty: "slashSegments s \<noteq> []"
  by (induction s) (auto split: list.splits)

lemma slashSegments_no_slash: "CHR ''/'' \<notin> set cs \<Longrightarrow> slashSegments cs = [cs]"
  by (induction cs) auto

lemma slashSegments_slash:
  "CHR ''/'' \<in> set cs \<Longrightarrow> \<exists>s t ss. slashSegments cs = s # t # ss"
proof (induction cs)
  case Nil
  then show ?case by simp
next
  case (Cons d cs)
  show ?case
  proof (cases "d = CHR ''/''")
    case True
    then show ?thesis using slashSegments_nonempty[of cs] by (cases "slashSegments cs") auto
  next
    case False
    with Cons.prems have "CHR ''/'' \<in> set cs" by simp
    from Cons.IH[OF this] obtain s t ss where "slashSegments cs = s # t # ss" by blast
    then show ?thesis using False by simp
  qed
qed

lemma last_slashSegments_Cons:
  "last (slashSegments (c # cs)) =
     (if CHR ''/'' \<in> set cs then last (slashSegments cs)
      else if c = CHR ''/'' then cs else c # cs)"
proof (cases "CHR ''/'' \<in> set cs")
  case True
  from slashSegments_slash[OF True] obtain s t ss where "slashSegments cs = s # t # ss" by blast
  then show ?thesis using True by simp
next
  case False
  then show ?thesis by (simp add: slashSegments_no_slash)
qed

lemma lastSegment_Cons:
  "lastSegment (c # cs) =
     (if CHR ''/'' \<in> set cs then lastSegment cs
      else if c = CHR ''/'' then cs else c # cs)"
proof (cases "CHR ''/'' \<in> set cs")
  case True
  then have "CHR ''/'' \<in> set (rev cs)" by simp
  then have "takeWhile (\<lambda>c. c \<noteq> CHR ''/'') (rev cs @ [c]) = takeWhile (\<lambda>c. c \<noteq> CHR ''/'') (rev cs)"
    by (intro takeWhile_append1[where x = "CHR ''/''"]) auto
  then show ?thesis using True by (simp add: lastSegment_def)
next
  case False
  then have "\<And>x. x \<in> set (rev cs) \<Longrightarrow> x \<noteq> CHR ''/''" by auto
  then have "takeWhile (\<lambda>c. c \<noteq> CHR ''/'') (rev cs @ [c])
      = rev cs @ takeWhile (\<lambda>c. c \<noteq> CHR ''/'') [c]"
    by (rule takeWhile_append2)
  then show ?thesis using False by (simp add: lastSegment_def)
qed

lemma lastSegment_is_last_segment: "lastSegment s = last (slashSegments s)"
proof (induction s)
  case Nil
  then show ?case by (simp add: lastSegment_def)
next
  case (Cons c cs)
  then show ?case by (simp only: lastSegment_Cons last_slashSegments_Cons)
qed

lemma basenameOr_spec: "basenameOr s = specBasename s"
  by (simp add: basenameOr_def specBasename_def Let_def lastSegment_is_last_segment)

lemma of_char_inj: "(of_char (c::char) :: nat) = of_char d \<Longrightarrow> c = d"
  by (metis char_of_char)

lemma toLowerChar_cases:
  "toLowerChar c = c \<or>
   (((65 \<le> (of_char c :: nat) \<and> (of_char c :: nat) \<le> 90) \<or> (192 \<le> (of_char c :: nat) \<and> (of_char c::nat) \<le> 222))
    \<and> (of_char (toLowerChar c) :: nat) = of_char c + 32)"
proof -
  define n where "n = (of_char c :: nat)"
  show ?thesis
  proof (cases "(65 \<le> n \<and> n \<le> 90) \<or> (192 \<le> n \<and> n \<le> 222 \<and> n \<noteq> 215)")
    case False
    then show ?thesis unfolding n_def by (auto simp add: toLowerChar_def Let_def)
  next
    case True
    then have lt: "n + 32 < 256" by auto
    have "toLowerChar c = char_of (n + 32)"
      using True by (simp add: toLowerChar_def n_def Let_def)
    then have "(of_char (toLowerChar c) :: nat) = n + 32" using lt by simp
    then show ?thesis using True unfolding n_def by auto
  qed
qed

lemma toLowerChar_letters:
  "toLowerChar CHR ''d'' = CHR ''d''" "toLowerChar CHR ''D'' = CHR ''d''"
  "toLowerChar CHR ''m'' = CHR ''m''" "toLowerChar CHR ''M'' = CHR ''m''"
  "toLowerChar CHR ''.'' = CHR ''.''"
  by code_simp+

lemma toLowerChar_d: "toLowerChar c = CHR ''d'' \<longleftrightarrow> c = CHR ''d'' \<or> c = CHR ''D''"
proof
  assume a: "toLowerChar c = CHR ''d''"
  from toLowerChar_cases[of c] show "c = CHR ''d'' \<or> c = CHR ''D''"
  proof
    assume "toLowerChar c = c" with a show ?thesis by simp
  next
    assume "((65 \<le> (of_char c :: nat) \<and> (of_char c :: nat) \<le> 90) \<or> (192 \<le> (of_char c :: nat) \<and> (of_char c::nat) \<le> 222))
    \<and> (of_char (toLowerChar c) :: nat) = of_char c + 32"
    then have "(of_char c :: nat) = of_char (CHR ''D'')" using a by simp
    then show ?thesis using of_char_inj by blast
  qed
qed (auto simp: toLowerChar_letters)

lemma toLowerChar_m: "toLowerChar c = CHR ''m'' \<longleftrightarrow> c = CHR ''m'' \<or> c = CHR ''M''"
proof
  assume a: "toLowerChar c = CHR ''m''"
  from toLowerChar_cases[of c] show "c = CHR ''m'' \<or> c = CHR ''M''"
  proof
    assume "toLowerChar c = c" with a show ?thesis by simp
  next
    assume "((65 \<le> (of_char c :: nat) \<and> (of_char c :: nat) \<le> 90) \<or> (192 \<le> (of_char c :: nat) \<and> (of_char c::nat) \<le> 222))
    \<and> (of_char (toLowerChar c) :: nat) = of_char c + 32"
    then have "(of_char c :: nat) = of_char (CHR ''M'')" using a by simp
    then show ?thesis using of_char_inj by blast
  qed
qed (auto simp: toLowerChar_letters)

lemma toLowerChar_dot: "toLowerChar c = CHR ''.'' \<longleftrightarrow> c = CHR ''.''"
proof
  assume a: "toLowerChar c = CHR ''.''"
  from toLowerChar_cases[of c] show "c = CHR ''.''"
  proof
    assume "toLowerChar c = c" with a show ?thesis by simp
  next
    assume "((65 \<le> (of_char c :: nat) \<and> (of_char c :: nat) \<le> 90) \<or> (192 \<le> (of_char c :: nat) \<and> (of_char c::nat) \<le> 222))
    \<and> (of_char (toLowerChar c) :: nat) = of_char c + 32"
    then have False using a by auto
    then show ?thesis ..
  qed
qed (auto simp: toLowerChar_letters)

lemma hasMdExt_spec: "hasMdExt p \<longleftrightarrow> endsWith (toLowerCase p) ''.md''"
proof (cases "rev p")
  case Nil
  then show ?thesis by (simp add: hasMdExt_def endsWith_def toLowerCase_def)
next
  case (Cons d r1)
  note c1 = Cons
  show ?thesis
  proof (cases r1)
    case Nil
    then have "length p = 1" using c1 by (metis length_rev length_Cons list.size(3) One_nat_def)
    then show ?thesis using c1 Nil by (simp add: hasMdExt_def endsWith_def toLowerCase_def)
  next
    case (Cons m r2)
    note c2 = Cons
    show ?thesis
    proof (cases r2)
      case Nil
      then have "length p = 2" using c1 c2
        by (metis length_rev length_Cons list.size(3) One_nat_def Suc_1)
      then show ?thesis using c1 c2 Nil by (simp add: hasMdExt_def endsWith_def toLowerCase_def)
    next
      case (Cons dot r3)
      have p: "p = rev r3 @ [dot, m, d]" using c1 c2 Cons by (metis rev_rev_ident rev.simps append.assoc append_Cons append_Nil)
      have "drop (length p - 3) (toLowerCase p) = [toLowerChar dot, toLowerChar m, toLowerChar d]"
        by (simp add: p toLowerCase_def)
      then have "endsWith (toLowerCase p) ''.md'' \<longleftrightarrow>
          toLowerChar dot = CHR ''.'' \<and> toLowerChar m = CHR ''m'' \<and> toLowerChar d = CHR ''d''"
        by (simp add: endsWith_def toLowerCase_def p)
      moreover have "hasMdExt p \<longleftrightarrow>
          (d = CHR ''d'' \<or> d = CHR ''D'') \<and> (m = CHR ''m'' \<or> m = CHR ''M'') \<and> dot = CHR ''.''"
        using c1 c2 Cons by (simp add: hasMdExt_def)
      ultimately show ?thesis unfolding toLowerChar_d toLowerChar_m toLowerChar_dot by blast
    qed
  qed
qed

lemma normalizePath_spec: "normalizePath p = specNormalize p"
  by (simp add: normalizePath_def specNormalize_def stripMdExt_def hasMdExt_spec toLowerCase_def
      take_map)

text \<open>
  Claim C4: a task links to a source path exactly when some reference \<open>r\<close> of its link-list,
  with \<open>P\<close> the normalized target of \<open>r\<close> and \<open>S\<close> the normalized source path, has \<open>P = S\<close>,
  or the same basename as \<open>S\<close>, or \<open>P\<close> ends with a slash and the basename of \<open>S\<close>, or \<open>S\<close>
  ends with a slash and the basename of \<open>P\<close>; here \<open>normalize\<close> and \<open>basename\<close> are the ones
  written from the specification, which lower-case the whole alphabet, strip the extension
  in any case, and take the name after the last slash. So a task that references
  \<open>[[Report]]\<close> links to \<open>Notes/Report.md\<close>, one that references \<open>[[Other/Report]]\<close> links to
  \<open>Report.md\<close>, one that references \<open>[[REPORT]]\<close> links to \<open>notes/report.md\<close>, and one that
  references \<open>[[A/Report]]\<close> links to \<open>B/Report.md\<close>; a task that references \<open>[[Plan]]\<close> or
  the path \<open>MyReport\<close> does not link to a note named \<open>Report\<close>, and a task without
  references links to nothing.
\<close>

theorem taskLinksToSource_iff:
  "(taskLinksToSource task sourcePath \<longleftrightarrow>
      (\<exists>projects r. task_projects task = Some projects \<and> r \<in> set projects \<and>
         (let P = specNormalize (extractPathFromLink r); Pbase = specBasename P;
              S = specNormalize sourcePath; Sbase = specBasename S
          in P = S \<or> Pbase = Sbase \<or> endsWith P (''/'' @ Sbase)
             \<or> endsWith S (''/'' @ Pbase)))) \<and>
   toLowerCase ''ABCDEFGHIJKLMNOPQRSTUVWXYZ'' = ''abcdefghijklmnopqrstuvwxyz'' \<and>
   specNormalize ''Docs/Report.MD'' = ''docs/report'' \<and>
   specNormalize ''docs/report'' = ''docs/report'' \<and>
   (name \<noteq> [] \<and> CHR ''/'' \<notin> set name \<longrightarrow>
      specBasename name = name \<and> specBasename (dir @ ''/'' @ name) = name) \<and>
   taskLinksToSource \<lparr>task_path = taskPath, task_projects = Some [''[[Report]]'']\<rparr>
     ''Notes/Report.md'' \<and>
   taskLinksToSource \<lparr>task_path = taskPath, task_projects = Some [''[[Other/Report]]'']\<rparr>
     ''Report.md'' \<and>
   taskLinksToSource \<lparr>task_path = taskPath, task_projects = Some [''[[REPORT]]'']\<rparr>
     ''notes/report.md'' \<and>
   taskLinksToSource \<lparr>task_path = taskPath, task_projects = Some [''[[A/Report]]'']\<rparr>
     ''B/Report.md'' \<and>
   \<not> taskLinksToSource \<lparr>task_path = taskPath, task_projects = Some [''[[Plan]]'']\<rparr>
     ''Notes/Report.md'' \<and>
   \<not> taskLinksToSource \<lparr>task_path = taskPath, task_projects = Some [''MyReport'']\<rparr>
     ''Report.md'' \<and>
   \<not> taskLinksToSource \<lparr>task_path = taskPath, task_projects = Some []\<rparr> ''Report.md'' \<and>
   \<not> taskLinksToSource \<lparr>task_path = taskPath, task_projects = None\<rparr> ''Report.md''"
proof -
  have rule: "taskLinksToSource task sourcePath \<longleftrightarrow>
      (\<exists>projects r. task_projects task = Some projects \<and> r \<in> set projects \<and>
         (let P = specNormalize (extractPathFromLink r); Pbase = specBasename P;
              S = specNormalize sourcePath; Sbase = specBasename S
          in P = S \<or> Pbase = Sbase \<or> endsWith P (''/'' @ Sbase)
             \<or> endsWith S (''/'' @ Pbase)))"
  proof (cases "task_projects task")
    case None
    then show ?thesis by (simp add: taskLinksToSource_def)
  next
    case (Some projects)
    show ?thesis
    proof (cases "projects = []")
      case True
      with Some show ?thesis by (simp add: taskLinksToSource_def)
    next
      case False
      with Some show ?thesis
        by (simp add: taskLinksToSource_def linksLoop_iff projectMatches_def Let_def Bex_def
            basenameOr_spec normalizePath_spec)
    qed
  qed
  have alphabet: "toLowerCase ''ABCDEFGHIJKLMNOPQRSTUVWXYZ'' = ''abcdefghijklmnopqrstuvwxyz''"
    by code_simp
  have n1: "specNormalize ''Docs/Report.MD'' = ''docs/report''" by code_simp
  have n2: "specNormalize ''docs/report'' = ''docs/report''" by code_simp
  have base: "specBasename name = name \<and> specBasename (dir @ ''/'' @ name) = name"
    if a: "name \<noteq> [] \<and> CHR ''/'' \<notin> set name"
  proof -
    have 1: "last (slashSegments name) = name" using a by (simp add: slashSegments_no_slash)
    have all: "\<forall>c \<in> set (rev name). c \<noteq> CHR ''/''" using a by auto
    have "takeWhile (\<lambda>c. c \<noteq> CHR ''/'') (rev name @ CHR ''/'' # rev dir)
          = rev name @ takeWhile (\<lambda>c. c \<noteq> CHR ''/'') (CHR ''/'' # rev dir)"
      by (rule takeWhile_append2) (use all in auto)
    then have "lastSegment (dir @ ''/'' @ name) = name"
      by (simp add: lastSegment_def)
    then have 2: "last (slashSegments (dir @ ''/'' @ name)) = name"
      by (simp add: lastSegment_is_last_segment)
    from 1 2 a show ?thesis by (simp add: specBasename_def)
  qed
  have e1: "taskLinksToSource \<lparr>task_path = taskPath, task_projects = Some [''[[Report]]'']\<rparr>
     ''Notes/Report.md''"
    by (simp add: taskLinksToSource_def) code_simp
  have e2: "taskLinksToSource \<lparr>task_path = taskPath, task_projects = Some [''[[Other/Report]]'']\<rparr>
     ''Report.md''"
    by (simp add: taskLinksToSource_def) code_simp
  have e3: "taskLinksToSource \<lparr>task_path = taskPath, task_projects = Some [''[[REPORT]]'']\<rparr>
     ''notes/report.md''"
    by (simp add: taskLinksToSource_def) code_simp
  have e4: "taskLinksToSource \<lparr>task_path = taskPath, task_projects = Some [''[[A/Report]]'']\<rparr>
     ''B/Report.md''"
    by (simp add: taskLinksToSource_def) code_simp
  have e5: "\<not> taskLinksToSource \<lparr>task_path = taskPath, task_projects = Some [''[[Plan]]'']\<rparr>
     ''Notes/Report.md''"
    by (simp add: taskLinksToSource_def) code_simp
  have e6: "\<not> taskLinksToSource \<lparr>task_path = taskPath, task_projects = Some [''MyReport'']\<rparr>
     ''Report.md''"
    by (simp add: taskLinksToSource_def) code_simp
  have e7: "\<not> taskLinksToSource \<lparr>task_path = taskPath, task_projects = Some []\<rparr> ''Report.md''"
    by (simp add: taskLinksToSource_def)
  have e8: "\<not> taskLinksToSource \<lparr>task_path = taskPath, task_projects = None\<rparr> ''Report.md''"
    by (simp add: taskLinksToSource_def)
  from rule alphabet n1 n2 base e1 e2 e3 e4 e5 e6 e7 e8 show ?thesis by blast
qed

theorem taskLinksToSource_witness:
  "(\<exists>projects r.
      task_projects \<lparr>task_path = ''Tasks/t1.md'',
                     task_projects = Some [''[x](Docs/Plan.md)'', ''[[REPORT|r]]'']\<rparr> = Some projects \<and>
      r \<in> set projects \<and>
      (let P = specNormalize (extractPathFromLink r); Pbase = specBasename P;
           S = specNormalize ''notes/report.MD''; Sbase = specBasename S
       in P = S \<or> Pbase = Sbase \<or> endsWith P (''/'' @ Sbase)
          \<or> endsWith S (''/'' @ Pbase))) \<and>
   specBasename ''report'' = ''report'' \<and> specBasename (''notes'' @ ''/'' @ ''report'') = ''report''"
proof -
  have l: "taskLinksToSource
     \<lparr>task_path = ''Tasks/t1.md'', task_projects = Some [''[x](Docs/Plan.md)'', ''[[REPORT|r]]'']\<rparr>
     ''notes/report.MD''"
    by code_simp
  note t = taskLinksToSource_iff[of _ "''notes/report.MD''" "''report''" "''notes''" "''t''"]
  from t[THEN conjunct1, THEN iffD1, OF l] t
  show ?thesis by simp
qed

section \<open>Properties of the conversion\<close>

lemma setIfUndefined_keeps: "fm k = Some v \<Longrightarrow> setIfUndefined f x fm k = Some v"
  by (auto simp: setIfUndefined_def)

lemma applyDefaultFields_keeps:
  "fm k = Some v \<Longrightarrow> applyDefaultFields settings toUserField ts fm k = Some v"
  by (simp add: applyDefaultFields_def setIfUndefined_keeps)

lemma addTaskIdentification_keeps:
  "fm k = Some v \<Longrightarrow> \<not> (taskIdentificationMethod settings \<noteq> ''property'' \<and> k = ''tags'') \<Longrightarrow>
   addTaskIdentification settings fm k = Some v"
  by (auto simp: addTaskIdentification_def Let_def)

lemma addTaskIdentification_tags:
  "fm ''tags'' = Some (JArr xs) \<Longrightarrow> taskIdentificationMethod settings \<noteq> ''property'' \<Longrightarrow>
   addTaskIdentification settings fm ''tags'' =
     Some (JArr (xs @ (if JStr (orElse (taskTag settings) ''task'') \<in> set xs then []
                       else [JStr (orElse (taskTag settings) ''task'')])))"
  by (simp add: addTaskIdentification_def Let_def)

lemma addBaseLink_other:
  "fm k = Some v \<Longrightarrow> k \<noteq> projectsField \<Longrightarrow> addBaseLink projectsField link fm k = Some v"
  by (auto simp: addBaseLink_def split: option.splits jsval.splits)

lemma addBaseLink_array:
  "fm projectsField = Some (JArr xs) \<Longrightarrow>
   addBaseLink projectsField link fm projectsField =
     Some (JArr (xs @ (if JStr link \<in> set xs then [] else [JStr link])))"
  by (simp add: addBaseLink_def)

lemma addBaseLink_not_array:
  "fm projectsField = Some v \<Longrightarrow> \<forall>xs. v \<noteq> JArr xs \<Longrightarrow>
   addBaseLink projectsField link fm projectsField = Some v"
  by (cases v) (simp_all add: addBaseLink_def)

lemma convertSingleNote_writes:
  assumes "convertSingleNote env options i filePath fm docs = Inr docs'"
  shows "docs' filePath =
           Some (convertFrontmatter (env_settings env) (env_toUserField env) options
                   (case baseFilePath options of
                      Some b \<Rightarrow> env_markdownLink env b filePath | None \<Rightarrow> None)
                   (fst (env_timestamps env i)) (snd (env_timestamps env i)) fm)"
    and "p \<noteq> filePath \<Longrightarrow> docs' p = docs p"
  using assms
  by (auto simp: convertSingleNote_def Let_def split: host_fault.splits)

text \<open>
  Claim C1, as the specification states it, fails: under the tag strategy a \<open>tags\<close> list that
  is present and lacks the task tag is not left as it was, the tag is appended to it.
\<close>

theorem convertFrontmatter_appends_tag:
  "[''tags'' \<mapsto> JArr [JStr ''document'']] ''tags'' = Some (JArr [JStr ''document'']) \<and>
   (convertFrontmatter
      \<lparr>taskIdentificationMethod = ''tag'', taskPropertyName = [], taskPropertyValue = [],
        taskTag = ''task'', defaultTaskStatus = ''open'', defaultTaskPriority = ''normal''\<rparr>
      id \<lparr>applyDefaults = False, linkToBase = False, baseFilePath = None, conv_onProgress = None\<rparr> None
      ''2026-01-16T10:00:00'' ''2026-01-16T10:00:00''
      [''tags'' \<mapsto> JArr [JStr ''document'']]) ''tags''
     = Some (JArr [JStr ''document'', JStr ''task'']) \<and>
   ''tags'' \<noteq> id ''dateModified''"
  by (simp add: convertFrontmatter_def addTaskIdentification_def orElse_def truthyStr_def)

text \<open>
  Claim C1, amended, on the callback that \<open>convertSingleNote\<close> hands to the host (what it
  answers is what the host writes). The modification timestamp is always overwritten. Every other field
  that is present before the conversion and is not a list keeps its value (left aside a
  \<open>tags\<close> field that is not a list, under the tag strategy). A field that holds a list
  keeps its elements, in order, at the front: the \<open>tags\<close> list gains the task tag at its
  end under the tag strategy when it lacks it, the link-list gains the reference to the
  base file at its end when the link is requested, the base file exists and the reference
  is not yet in the list; no other list changes.
\<close>

theorem convertFrontmatter_frame:
  fixes settings toUserField options baseLink tsCreated tsModified fm
  defines "fm' \<equiv> convertFrontmatter settings toUserField options baseLink tsCreated tsModified fm"
  shows
  "fm' (toUserField ''dateModified'') = Some (JStr tsModified) \<and>
   (fm k = Some v \<and> k \<noteq> toUserField ''dateModified'' \<and> (\<forall>xs. v \<noteq> JArr xs) \<and>
    \<not> (taskIdentificationMethod settings \<noteq> ''property'' \<and> k = ''tags'')
      \<longrightarrow> fm' k = Some v) \<and>
   (fm k = Some (JArr xs) \<and> k \<noteq> toUserField ''dateModified'' \<longrightarrow>
      (let addTag = (if taskIdentificationMethod settings \<noteq> ''property'' \<and> k = ''tags'' \<and>
                        JStr (orElse (taskTag settings) ''task'') \<notin> set xs
                     then [JStr (orElse (taskTag settings) ''task'')] else []);
           addLink = (if linkToBase options \<and> truthyStr (baseFilePath options) \<and>
                         k = toUserField ''projects''
                      then (case baseLink of
                              Some link \<Rightarrow> if JStr link \<in> set (xs @ addTag) then [] else [JStr link]
                            | None \<Rightarrow> [])
                      else [])
       in fm' k = Some (JArr (xs @ addTag @ addLink))))"
proof -
  define fm1 where "fm1 = addTaskIdentification settings fm"
  define fm2 where
    "fm2 = (if applyDefaults options then applyDefaultFields settings toUserField tsCreated fm1
            else fm1)"
  define linking where "linking = (linkToBase options \<and> truthyStr (baseFilePath options))"
  define fm3 where
    "fm3 = (if linking then
              (case baseLink of
                 Some link \<Rightarrow> addBaseLink (toUserField ''projects'') link fm2
               | None \<Rightarrow> fm2)
            else fm2)"
  have fm': "fm' = fm3(toUserField ''dateModified'' \<mapsto> JStr tsModified)"
    unfolding fm'_def convertFrontmatter_def Let_def fm3_def linking_def fm2_def fm1_def
    by (rule refl)
  have keep12: "fm2 k = Some u" if "fm1 k = Some u" for u
    using that by (simp add: fm2_def applyDefaultFields_keeps)
  have stamp: "fm' (toUserField ''dateModified'') = Some (JStr tsModified)"
    by (simp add: fm')
  have plain: "fm' k = Some v"
    if a: "fm k = Some v \<and> k \<noteq> toUserField ''dateModified'' \<and> (\<forall>xs. v \<noteq> JArr xs) \<and>
           \<not> (taskIdentificationMethod settings \<noteq> ''property'' \<and> k = ''tags'')"
  proof -
    have "fm1 k = Some v" unfolding fm1_def using a addTaskIdentification_keeps by blast
    then have 2: "fm2 k = Some v" by (rule keep12)
    have 3: "addBaseLink (toUserField ''projects'') link fm2 k = Some v" for link
    proof (cases "k = toUserField ''projects''")
      case True
      then show ?thesis
        using addBaseLink_not_array[of fm2 "toUserField ''projects''" v link] 2 a by simp
    next
      case False
      then show ?thesis
        using addBaseLink_other[of fm2 k v "toUserField ''projects''" link] 2 by simp
    qed
    have "fm3 k = Some v"
      using 2 3 by (simp add: fm3_def split: option.splits)
    then show ?thesis using a by (simp add: fm')
  qed
  have arrays: "let addTag = (if taskIdentificationMethod settings \<noteq> ''property'' \<and> k = ''tags'' \<and>
                        JStr (orElse (taskTag settings) ''task'') \<notin> set xs
                     then [JStr (orElse (taskTag settings) ''task'')] else []);
           addLink = (if linkToBase options \<and> truthyStr (baseFilePath options) \<and>
                         k = toUserField ''projects''
                      then (case baseLink of
                              Some link \<Rightarrow> if JStr link \<in> set (xs @ addTag) then [] else [JStr link]
                            | None \<Rightarrow> [])
                      else [])
       in fm' k = Some (JArr (xs @ addTag @ addLink))"
    if a: "fm k = Some (JArr xs) \<and> k \<noteq> toUserField ''dateModified''"
  proof -
    define tagging where
      "tagging = (taskIdentificationMethod settings \<noteq> ''property'' \<and> k = ''tags'')"
    define addTag where
      "addTag = (if taskIdentificationMethod settings \<noteq> ''property'' \<and> k = ''tags'' \<and>
                    JStr (orElse (taskTag settings) ''task'') \<notin> set xs
                 then [JStr (orElse (taskTag settings) ''task'')] else [])"
    have "fm1 k = Some (JArr (xs @ addTag))"
    proof (cases tagging)
      case True
      then show ?thesis
        using a addTaskIdentification_tags[of fm xs settings]
        by (auto simp: fm1_def addTag_def tagging_def)
    next
      case False
      then show ?thesis
        using a addTaskIdentification_keeps[of fm k "JArr xs" settings]
        by (auto simp: fm1_def addTag_def tagging_def)
    qed
    then have 2: "fm2 k = Some (JArr (xs @ addTag))" by (rule keep12)
    have 3: "addBaseLink (toUserField ''projects'') link fm2 k =
        Some (JArr (xs @ addTag @
          (if k = toUserField ''projects'' \<and> JStr link \<notin> set (xs @ addTag) then [JStr link] else [])))"
      for link
    proof (cases "k = toUserField ''projects''")
      case True
      then show ?thesis
        using addBaseLink_array[of fm2 "toUserField ''projects''" "xs @ addTag" link] 2 by auto
    next
      case False
      then show ?thesis
        using addBaseLink_other[of fm2 k _ "toUserField ''projects''" link] 2 by simp
    qed
    have "fm3 k = Some (JArr (xs @ addTag @
             (if linking \<and> k = toUserField ''projects''
              then (case baseLink of
                      Some link \<Rightarrow> if JStr link \<in> set (xs @ addTag) then [] else [JStr link]
                    | None \<Rightarrow> [])
              else [])))"
      using 2 3 by (auto simp: fm3_def split: option.splits)
    then have "fm' k = Some (JArr (xs @ addTag @
             (if linking \<and> k = toUserField ''projects''
              then (case baseLink of
                      Some link \<Rightarrow> if JStr link \<in> set (xs @ addTag) then [] else [JStr link]
                    | None \<Rightarrow> [])
              else [])))"
      using a by (simp add: fm')
    then show ?thesis
      unfolding Let_def addTag_def linking_def by (simp only: conj_assoc)
  qed
  from stamp plain arrays show ?thesis by blast
qed

theorem convertFrontmatter_frame_witness:
  "(convertFrontmatter
      \<lparr>taskIdentificationMethod = ''tag'', taskPropertyName = [], taskPropertyValue = [],
        taskTag = [], defaultTaskStatus = [], defaultTaskPriority = []\<rparr>
      id \<lparr>applyDefaults = True, linkToBase = True, baseFilePath = Some ''Queries/Review.base'', conv_onProgress = None\<rparr>
      (Some ''[[Review.base]]'') ''2026-01-16T10:00:00'' ''2026-01-16T10:00:01''
      [''status'' \<mapsto> JStr ''active'', ''tags'' \<mapsto> JArr [JStr ''document'']]) ''status''
     = Some (JStr ''active'') \<and>
   (convertFrontmatter
      \<lparr>taskIdentificationMethod = ''tag'', taskPropertyName = [], taskPropertyValue = [],
        taskTag = [], defaultTaskStatus = [], defaultTaskPriority = []\<rparr>
      id \<lparr>applyDefaults = True, linkToBase = True, baseFilePath = Some ''Queries/Review.base'', conv_onProgress = None\<rparr>
      (Some ''[[Review.base]]'') ''2026-01-16T10:00:00'' ''2026-01-16T10:00:01''
      [''status'' \<mapsto> JStr ''active'', ''tags'' \<mapsto> JArr [JStr ''document'']]) ''tags''
     = Some (JArr [JStr ''document'', JStr ''task'']) \<and>
   (convertFrontmatter
      \<lparr>taskIdentificationMethod = ''tag'', taskPropertyName = [], taskPropertyValue = [],
        taskTag = [], defaultTaskStatus = [], defaultTaskPriority = []\<rparr>
      id \<lparr>applyDefaults = True, linkToBase = True, baseFilePath = Some ''Queries/Review.base'', conv_onProgress = None\<rparr>
      (Some ''[[Review.base]]'') ''2026-01-16T10:00:00'' ''2026-01-16T10:00:01''
      [''status'' \<mapsto> JStr ''active'', ''tags'' \<mapsto> JArr [JStr ''document'']]) ''dateModified''
     = Some (JStr ''2026-01-16T10:00:01'')"
  using
    convertFrontmatter_frame[of
      "\<lparr>taskIdentificationMethod = ''tag'', taskPropertyName = [], taskPropertyValue = [],
        taskTag = [], defaultTaskStatus = [], defaultTaskPriority = []\<rparr>"
      id "\<lparr>applyDefaults = True, linkToBase = True, baseFilePath = Some ''Queries/Review.base'', conv_onProgress = None\<rparr>"
      "Some ''[[Review.base]]''" "''2026-01-16T10:00:00''" "''2026-01-16T10:00:01''"
      "[''status'' \<mapsto> JStr ''active'', ''tags'' \<mapsto> JArr [JStr ''document'']]"
      "''status''" "JStr ''active''" "[]"]
    convertFrontmatter_frame[of
      "\<lparr>taskIdentificationMethod = ''tag'', taskPropertyName = [], taskPropertyValue = [],
        taskTag = [], defaultTaskStatus = [], defaultTaskPriority = []\<rparr>"
      id "\<lparr>applyDefaults = True, linkToBase = True, baseFilePath = Some ''Queries/Review.base'', conv_onProgress = None\<rparr>"
      "Some ''[[Review.base]]''" "''2026-01-16T10:00:00''" "''2026-01-16T10:00:01''"
      "[''status'' \<mapsto> JStr ''active'', ''tags'' \<mapsto> JArr [JStr ''document'']]"
      "''tags''" "JNull" "[JStr ''document'']"]
  by (simp add: orElse_def truthyStr_def)

section \<open>Properties of the batch engines\<close>

lemma createStep_counts:
  "createStep ml svc opts d n st ix = Inr st' \<Longrightarrow>
   created (fst st') + skipped (fst st') + failed (fst st')
     = created (fst st) + skipped (fst st) + failed (fst st) + 1 \<and>
   length (errors (fst st')) + failed (fst st) = length (errors (fst st)) + failed (fst st') \<and>
   length (createdPaths (fst st')) + created (fst st)
     = length (createdPaths (fst st)) + created (fst st') \<and>
   failed (fst st') = failed (fst st) + (if creationFails ml svc opts d ix then 1 else 0) \<and>
   skipped (fst st') = skipped (fst st) + (if skipsItem opts d (snd ix) then 1 else 0)"
  by (auto simp: createStep_def creationFails_def Let_def
      split: create_outcome.splits if_splits option.splits)

lemma createLoop_Cons_Inr:
  "createLoop ml svc opts d n (ix # ixs) st = (Inr r, cs) \<Longrightarrow>
   \<exists>mid. createStep ml svc opts d n st ix = Inr mid \<and>
         createLoop ml svc opts d n ixs mid = (Inr r, cs)"
  by (cases "createStep ml svc opts d n st ix") simp_all

lemma createLoop_counts:
  "createLoop ml svc opts d n ixs st = (Inr r, cs) \<Longrightarrow>
   created r + skipped r + failed r
     = created (fst st) + skipped (fst st) + failed (fst st) + length ixs \<and>
   length (errors r) + failed (fst st) = length (errors (fst st)) + failed r \<and>
   length (createdPaths r) + created (fst st) = length (createdPaths (fst st)) + created r \<and>
   failed r = failed (fst st) + length (filter (creationFails ml svc opts d) ixs) \<and>
   skipped r = skipped (fst st) + length (filter (\<lambda>ix. skipsItem opts d (snd ix)) ixs)"
proof (induction ixs arbitrary: st)
  case Nil
  then show ?case by auto
next
  case (Cons ix ixs)
  from createLoop_Cons_Inr[OF Cons.prems] obtain mid
    where m: "createStep ml svc opts d n st ix = Inr mid"
      and l: "createLoop ml svc opts d n ixs mid = (Inr r, cs)" by blast
  from Cons.IH[OF l] createStep_counts[OF m]
  show ?case by (simp split: if_splits)
qed

lemma createStep_grows:
  "createStep ml svc opts d n st ix = Inr st' \<Longrightarrow>
   set (errors (fst st)) \<subseteq> set (errors (fst st')) \<and> set (snd st) \<subseteq> set (snd st')"
  by (auto simp: createStep_def Let_def split: create_outcome.splits option.splits if_splits)

lemma createLoop_calls_grow:
  "set (snd st) \<subseteq> set (snd (createLoop ml svc opts d n ixs st))"
proof (induction ixs arbitrary: st)
  case Nil
  then show ?case by simp
next
  case (Cons ix ixs)
  show ?case
  proof (cases "createStep ml svc opts d n st ix")
    case (Inl e)
    then show ?thesis by simp
  next
    case (Inr mid)
    from createStep_grows[OF Inr] Cons.IH[of mid] Inr show ?thesis by auto
  qed
qed

lemma createLoop_grows:
  "createLoop ml svc opts d n ixs st = (Inr r, cs) \<Longrightarrow> set (errors (fst st)) \<subseteq> set (errors r)"
proof (induction ixs arbitrary: st)
  case Nil
  then show ?case by auto
next
  case (Cons ix ixs)
  from createLoop_Cons_Inr[OF Cons.prems] obtain mid
    where m: "createStep ml svc opts d n st ix = Inr mid"
      and l: "createLoop ml svc opts d n ixs mid = (Inr r, cs)" by blast
  from createStep_grows[OF m] Cons.IH[OF l] show ?case by auto
qed

lemma createStep_records:
  "creationFails ml svc opts d ix \<Longrightarrow> createStep ml svc opts d n st ix = Inr st' \<Longrightarrow>
   \<exists>e \<in> set (errors (fst st')). sublist (pathOrEmpty (snd ix)) e"
proof -
  assume f: "creationFails ml svc opts d ix" and s: "createStep ml svc opts d n st ix = Inr st'"
  have 1: "sublist (pathOrEmpty (snd ix)) (''Failed to create task for: '' @ pathOrEmpty (snd ix))"
    by (rule sublist_append_leftI)
  have 2: "sublist (pathOrEmpty (snd ix)) (''Error for '' @ pathOrEmpty (snd ix) @ '': '' @ m)" for m
    by (rule sublist_appendI)
  show ?thesis
    using f s 1 2
    by (auto simp: createStep_def creationFails_def Let_def
        split: create_outcome.splits option.splits)
qed

lemma createStep_calls:
  "\<not> skipsItem opts d (snd ix) \<Longrightarrow> createStep ml svc opts d n st ix = Inr st' \<Longrightarrow>
   (fst ix, buildTaskData ml opts (snd ix)) \<in> set (snd st')"
  by (auto simp: createStep_def Let_def split: create_outcome.splits option.splits)

lemma createLoop_records:
  "ix \<in> set ixs \<Longrightarrow> creationFails ml svc opts d ix \<Longrightarrow>
   createLoop ml svc opts d n ixs st = (Inr r, cs) \<Longrightarrow>
   \<exists>e \<in> set (errors r). sublist (pathOrEmpty (snd ix)) e"
proof (induction ixs arbitrary: st)
  case Nil
  then show ?case by simp
next
  case (Cons a ixs)
  from createLoop_Cons_Inr[OF Cons.prems(3)] obtain mid
    where m: "createStep ml svc opts d n st a = Inr mid"
      and l: "createLoop ml svc opts d n ixs mid = (Inr r, cs)" by blast
  show ?case
  proof (cases "ix = a")
    case True
    from createStep_records[OF Cons.prems(2) m[folded True]] obtain e
      where e: "e \<in> set (errors (fst mid))" "sublist (pathOrEmpty (snd ix)) e" by blast
    then have "e \<in> set (errors r)" using createLoop_grows[OF l] by blast
    with e(2) show ?thesis by auto
  next
    case False
    with Cons.prems have "ix \<in> set ixs" by simp
    from Cons.IH[OF this Cons.prems(2) l] show ?thesis .
  qed
qed

lemma createStep_isl:
  "isl (createStep ml svc opts d n st ix) \<longleftrightarrow> progressThrowsAt opts n (fst ix)"
  by (simp add: createStep_def progressThrowsAt_def Let_def split: option.splits)

lemma createLoop_isl:
  "isl (fst (createLoop ml svc opts d n ixs st))
     \<longleftrightarrow> list_ex (\<lambda>ix. progressThrowsAt opts n (fst ix)) ixs"
proof (induction ixs arbitrary: st)
  case Nil
  then show ?case by simp
next
  case (Cons ix ixs)
  show ?case
  proof (cases "createStep ml svc opts d n st ix")
    case (Inl e)
    with createStep_isl[of ml svc opts d n st ix] show ?thesis by simp
  next
    case (Inr mid)
    with createStep_isl[of ml svc opts d n st ix] Cons.IH[of mid] show ?thesis by simp
  qed
qed

text \<open>The service is called for an item the loop reaches and does not skip.\<close>

lemma createLoop_calls:
  "\<forall>jx \<in> set pre \<union> {ix}. \<not> progressThrowsAt opts n (fst jx) \<Longrightarrow> \<not> skipsItem opts d (snd ix) \<Longrightarrow>
   (fst ix, buildTaskData ml opts (snd ix))
     \<in> set (snd (createLoop ml svc opts d n (pre @ ix # post) st))"
proof (induction pre arbitrary: st)
  case Nil
  from Nil.prems(1) createStep_isl[of ml svc opts d n st ix]
  obtain mid where m: "createStep ml svc opts d n st ix = Inr mid"
    by (cases "createStep ml svc opts d n st ix") auto
  from createStep_calls[OF Nil.prems(2) m] createLoop_calls_grow[of mid ml svc opts d n post] m
  show ?case by auto
next
  case (Cons a pre)
  from Cons.prems(1) createStep_isl[of ml svc opts d n st a]
  obtain mid where m: "createStep ml svc opts d n st a = Inr mid"
    by (cases "createStep ml svc opts d n st a") auto
  have "\<forall>jx \<in> set pre \<union> {ix}. \<not> progressThrowsAt opts n (fst jx)" using Cons.prems(1) by simp
  from Cons.IH[OF this Cons.prems(2), of mid] m show ?case by simp
qed

lemma enumerate_split:
  "i < length xs \<Longrightarrow>
   enumerate 0 xs = enumerate 0 (take i xs) @ (i, xs ! i) # enumerate (Suc i) (drop (Suc i) xs)"
proof -
  assume a: "i < length xs"
  have "xs = take i xs @ xs ! i # drop (Suc i) xs" using a by (simp add: id_take_nth_drop)
  then have "enumerate 0 xs = enumerate 0 (take i xs @ xs ! i # drop (Suc i) xs)" by simp
  also have "\<dots> = enumerate 0 (take i xs) @ (i, xs ! i) # enumerate (Suc i) (drop (Suc i) xs)"
    using a by (simp add: enumerate_append_eq min_def)
  finally show ?thesis .
qed

lemma list_ex_enumerate:
  "list_ex (\<lambda>ix. P (fst ix)) (enumerate 0 xs) \<longleftrightarrow> list_ex P [0..<length xs]"
proof -
  have "set (map fst (enumerate 0 xs)) = {0..<length xs}" by simp
  then have "fst ` set (enumerate 0 xs) = {0..<length xs}" by (simp only: set_map)
  then have "(\<exists>ix \<in> set (enumerate 0 xs). P (fst ix)) \<longleftrightarrow> (\<exists>x \<in> {0..<length xs}. P x)"
    by (metis (mono_tags, lifting) image_iff)
  then show ?thesis by (simp add: list_ex_iff)
qed

lemma nth_in_enumerate: "i < length xs \<Longrightarrow> (i, xs ! i) \<in> set (enumerate 0 xs)"
  by (simp add: in_set_enumerate_eq)

lemma createTasks_returns_iff:
  "(\<exists>r. fst (createTasks ml svc getAllTasks items options) = Inr r)
     \<longleftrightarrow> \<not> creationRejects getAllTasks items options"
proof (cases "items = []")
  case True
  then show ?thesis by (simp add: createTasks_def creationRejects_def)
next
  case ne: False
  show ?thesis
  proof (cases "upFrontCheck getAllTasks items options")
    case (Inl e)
    then have "skipExisting options \<and>
        (reportProgress (onProgress options) 0 (length items) ''Checking for existing tasks...''
           \<noteq> None \<or> isl getAllTasks)"
      by (auto simp: upFrontCheck_def checkForDuplicates_def
          split: if_splits option.splits sum.splits)
    with Inl ne show ?thesis by (simp add: createTasks_def creationRejects_def)
  next
    case (Inr d)
    then have up: "\<not> (skipExisting options \<and>
        (reportProgress (onProgress options) 0 (length items) ''Checking for existing tasks...''
           \<noteq> None \<or> isl getAllTasks))"
      by (auto simp: upFrontCheck_def checkForDuplicates_def
          split: if_splits option.splits sum.splits)
    let ?run = "createLoop ml svc options d (length items) (enumerate 0 items)
        (emptyCreationResult, [])"
    have ct: "createTasks ml svc getAllTasks items options = ?run"
      using ne Inr by (simp add: createTasks_def)
    have "(\<exists>r. fst ?run = Inr r) \<longleftrightarrow> \<not> isl (fst ?run)" by (cases "fst ?run") simp_all
    also have "\<dots> \<longleftrightarrow> \<not> list_ex (progressThrowsAt options (length items)) [0..<length items]"
      by (simp only: createLoop_isl list_ex_enumerate)
    finally show ?thesis using up ne by (simp add: ct creationRejects_def)
  qed
qed

lemma convertStep_skip:
  "pathOrEmpty (snd ix) \<in> set (alreadyTaskPaths pre) \<Longrightarrow> \<not> roundThrows env opts pre n ix \<Longrightarrow>
   convertStep env opts pre n st ix
     = Inr ((fst st)\<lparr>conv_skipped := conv_skipped (fst st) + 1\<rparr>, snd st)"
  by (auto simp: convertStep_def roundThrows_def Let_def split: option.splits)

lemma convertStep_missing:
  "pathOrEmpty (snd ix) \<notin> set (alreadyTaskPaths pre) \<Longrightarrow> snd st (pathOrEmpty (snd ix)) = None \<Longrightarrow>
   \<not> roundThrows env opts pre n ix \<Longrightarrow>
   convertStep env opts pre n st ix =
     Inr ((fst st)\<lparr>conv_failed := conv_failed (fst st) + 1,
                  conv_errors := conv_errors (fst st) @ [''File not found: '' @ pathOrEmpty (snd ix)]\<rparr>,
          snd st)"
  by (auto simp: convertStep_def roundThrows_def Let_def split: option.splits)

lemma convertStep_found:
  "pathOrEmpty (snd ix) \<notin> set (alreadyTaskPaths pre) \<Longrightarrow>
   snd st (pathOrEmpty (snd ix)) = Some fm \<Longrightarrow> \<not> roundThrows env opts pre n ix \<Longrightarrow>
   \<exists>written. (\<forall>p. (written p = None) = (snd st p = None)) \<and>
     convertStep env opts pre n st ix =
     Inr (case env_fault env (fst ix) (pathOrEmpty (snd ix)) of
        NoFault \<Rightarrow>
          ((fst st)\<lparr>converted := converted (fst st) + 1,
                    convertedPaths := convertedPaths (fst st) @ [pathOrEmpty (snd ix)]\<rparr>,
           written)
      | MutationRejected m \<Rightarrow>
          ((fst st)\<lparr>conv_failed := conv_failed (fst st) + 1,
                    conv_errors := conv_errors (fst st)
                      @ [''Error for '' @ pathOrEmpty (snd ix) @ '': '' @ m]\<rparr>,
           snd st)
      | WaitRejected m \<Rightarrow>
          ((fst st)\<lparr>conv_failed := conv_failed (fst st) + 1,
                    conv_errors := conv_errors (fst st)
                      @ [''Error for '' @ pathOrEmpty (snd ix) @ '': '' @ m]\<rparr>,
           written))"
proof -
  assume a: "pathOrEmpty (snd ix) \<notin> set (alreadyTaskPaths pre)"
    and b: "snd st (pathOrEmpty (snd ix)) = Some fm"
    and c: "\<not> roundThrows env opts pre n ix"
  define written where
    "written = (snd st)(pathOrEmpty (snd ix) \<mapsto>
        convertFrontmatter (env_settings env) (env_toUserField env) opts
          (case baseFilePath opts of
             Some bp \<Rightarrow> env_markdownLink env bp (pathOrEmpty (snd ix)) | None \<Rightarrow> None)
          (fst (env_timestamps env (fst ix))) (snd (env_timestamps env (fst ix))) fm)"
  have w: "\<forall>p. (written p = None) = (snd st p = None)" using b by (simp add: written_def)
  have p: "reportProgress (conv_onProgress opts) (fst ix + 1) n (convertingStatus (fst ix + 1) n)
      = None"
    and l: "env_throws env LoopLookup (fst ix) (pathOrEmpty (snd ix)) = None"
    using a c by (auto simp: roundThrows_def)
  have "convertStep env opts pre n st ix =
     Inr (case env_fault env (fst ix) (pathOrEmpty (snd ix)) of
        NoFault \<Rightarrow>
          ((fst st)\<lparr>converted := converted (fst st) + 1,
                    convertedPaths := convertedPaths (fst st) @ [pathOrEmpty (snd ix)]\<rparr>,
           written)
      | MutationRejected m \<Rightarrow>
          ((fst st)\<lparr>conv_failed := conv_failed (fst st) + 1,
                    conv_errors := conv_errors (fst st)
                      @ [''Error for '' @ pathOrEmpty (snd ix) @ '': '' @ m]\<rparr>,
           snd st)
      | WaitRejected m \<Rightarrow>
          ((fst st)\<lparr>conv_failed := conv_failed (fst st) + 1,
                    conv_errors := conv_errors (fst st)
                      @ [''Error for '' @ pathOrEmpty (snd ix) @ '': '' @ m]\<rparr>,
           written))"
    using a b p l
    by (cases "env_fault env (fst ix) (pathOrEmpty (snd ix))")
       (simp_all add: convertStep_def convertSingleNote_def Let_def written_def)
  with w show ?thesis by blast
qed

lemma convertStep_isl:
  "isl (convertStep env opts pre n st ix) \<longleftrightarrow> roundThrows env opts pre n ix"
  by (auto simp: convertStep_def roundThrows_def Let_def split: option.splits)

lemma convertStep_counts:
  assumes dom: "\<forall>p. (snd st p = None) = (docs p = None)"
      and step: "convertStep env opts pre n st ix = Inr st'"
  shows "converted (fst st') + conv_skipped (fst st') + conv_failed (fst st')
           = converted (fst st) + conv_skipped (fst st) + conv_failed (fst st) + 1 \<and>
         length (conv_errors (fst st')) + conv_failed (fst st)
           = length (conv_errors (fst st)) + conv_failed (fst st') \<and>
         conv_failed (fst st')
           = conv_failed (fst st) + (if conversionFails env docs pre ix then 1 else 0) \<and>
         (\<forall>p. (snd st' p = None) = (docs p = None))"
proof -
  have nt: "\<not> roundThrows env opts pre n ix"
    using convertStep_isl[of env opts pre n st ix] step by simp
  show ?thesis
  proof (cases "pathOrEmpty (snd ix) \<in> set (alreadyTaskPaths pre)")
    case True
    from convertStep_skip[OF True nt, of st] step dom True
    show ?thesis by (auto simp: conversionFails_def)
  next
    case notask: False
    show ?thesis
    proof (cases "snd st (pathOrEmpty (snd ix))")
      case None
      then have "docs (pathOrEmpty (snd ix)) = None" using dom by simp
      with convertStep_missing[OF notask None nt] step dom notask
      show ?thesis by (auto simp: conversionFails_def)
    next
      case (Some fm)
      then have ex: "docs (pathOrEmpty (snd ix)) \<noteq> None" using dom by (metis option.distinct(1))
      from convertStep_found[OF notask Some nt] obtain written
        where w: "\<forall>p. (written p = None) = (snd st p = None)"
          and eq: "convertStep env opts pre n st ix =
       Inr (case env_fault env (fst ix) (pathOrEmpty (snd ix)) of
          NoFault \<Rightarrow>
            ((fst st)\<lparr>converted := converted (fst st) + 1,
                      convertedPaths := convertedPaths (fst st) @ [pathOrEmpty (snd ix)]\<rparr>,
             written)
        | MutationRejected m \<Rightarrow>
            ((fst st)\<lparr>conv_failed := conv_failed (fst st) + 1,
                      conv_errors := conv_errors (fst st)
                        @ [''Error for '' @ pathOrEmpty (snd ix) @ '': '' @ m]\<rparr>,
             snd st)
        | WaitRejected m \<Rightarrow>
            ((fst st)\<lparr>conv_failed := conv_failed (fst st) + 1,
                      conv_errors := conv_errors (fst st)
                        @ [''Error for '' @ pathOrEmpty (snd ix) @ '': '' @ m]\<rparr>,
             written))" by blast
      have wd: "\<forall>p. (written p = None) = (docs p = None)" using w dom by simp
      show ?thesis
        using eq step dom wd notask ex
        by (cases "env_fault env (fst ix) (pathOrEmpty (snd ix))")
           (auto simp: conversionFails_def)
    qed
  qed
qed

lemma convertLoop_Cons_Inr:
  "convertLoop env opts pre n (ix # ixs) st = (Inr r, v) \<Longrightarrow>
   \<exists>mid. convertStep env opts pre n st ix = Inr mid \<and>
         convertLoop env opts pre n ixs mid = (Inr r, v)"
  by (cases "convertStep env opts pre n st ix") simp_all

lemma convertLoop_counts:
  assumes "\<forall>p. (snd st p = None) = (docs p = None)"
      and "convertLoop env opts pre n ixs st = (Inr r, v)"
  shows "converted r + conv_skipped r + conv_failed r
           = converted (fst st) + conv_skipped (fst st) + conv_failed (fst st) + length ixs \<and>
         length (conv_errors r) + conv_failed (fst st)
           = length (conv_errors (fst st)) + conv_failed r \<and>
         conv_failed r
           = conv_failed (fst st) + length (filter (conversionFails env docs pre) ixs)"
  using assms
proof (induction ixs arbitrary: st)
  case Nil
  then show ?case by auto
next
  case (Cons ix ixs)
  from convertLoop_Cons_Inr[OF Cons.prems(2)] obtain mid
    where m: "convertStep env opts pre n st ix = Inr mid"
      and l: "convertLoop env opts pre n ixs mid = (Inr r, v)" by blast
  note s = convertStep_counts[OF Cons.prems(1) m]
  from s have dom': "\<forall>p. (snd mid p = None) = (docs p = None)" by blast
  from Cons.IH[OF dom' l] s show ?case by (simp split: if_splits)
qed

lemma convertStep_grows:
  assumes "convertStep env opts pre n st ix = Inr st'"
  shows "set (conv_errors (fst st)) \<subseteq> set (conv_errors (fst st'))"
proof -
  have nt: "\<not> roundThrows env opts pre n ix"
    using convertStep_isl[of env opts pre n st ix] assms by simp
  show ?thesis
  proof (cases "pathOrEmpty (snd ix) \<in> set (alreadyTaskPaths pre)")
    case True
    from convertStep_skip[OF True nt, of st] assms show ?thesis by auto
  next
    case notask: False
    show ?thesis
    proof (cases "snd st (pathOrEmpty (snd ix))")
      case None
      from convertStep_missing[OF notask None nt] assms show ?thesis by auto
    next
      case (Some fm)
      from convertStep_found[OF notask Some nt] assms show ?thesis
        by (cases "env_fault env (fst ix) (pathOrEmpty (snd ix))") auto
    qed
  qed
qed

lemma convertLoop_grows:
  "convertLoop env opts pre n ixs st = (Inr r, v) \<Longrightarrow>
   set (conv_errors (fst st)) \<subseteq> set (conv_errors r)"
proof (induction ixs arbitrary: st)
  case Nil
  then show ?case by auto
next
  case (Cons ix ixs)
  from convertLoop_Cons_Inr[OF Cons.prems] obtain mid
    where m: "convertStep env opts pre n st ix = Inr mid"
      and l: "convertLoop env opts pre n ixs mid = (Inr r, v)" by blast
  from convertStep_grows[OF m] Cons.IH[OF l] show ?case by auto
qed

lemma convertStep_records:
  assumes dom: "\<forall>p. (snd st p = None) = (docs p = None)"
      and f: "conversionFails env docs pre ix"
      and step: "convertStep env opts pre n st ix = Inr st'"
  shows "\<exists>e \<in> set (conv_errors (fst st')). sublist (pathOrEmpty (snd ix)) e"
proof -
  have nt: "\<not> roundThrows env opts pre n ix"
    using convertStep_isl[of env opts pre n st ix] step by simp
  have 1: "sublist (pathOrEmpty (snd ix)) (''File not found: '' @ pathOrEmpty (snd ix))"
    by (rule sublist_append_leftI)
  have 2: "sublist (pathOrEmpty (snd ix)) (''Error for '' @ pathOrEmpty (snd ix) @ '': '' @ m)" for m
    by (rule sublist_appendI)
  have notask: "pathOrEmpty (snd ix) \<notin> set (alreadyTaskPaths pre)"
    using f by (simp add: conversionFails_def)
  show ?thesis
  proof (cases "snd st (pathOrEmpty (snd ix))")
    case None
    from convertStep_missing[OF notask None nt] step 1 show ?thesis by auto
  next
    case (Some fm)
    then have "docs (pathOrEmpty (snd ix)) \<noteq> None" using dom by (metis option.distinct(1))
    then have nf: "env_fault env (fst ix) (pathOrEmpty (snd ix)) \<noteq> NoFault"
      using f by (auto simp: conversionFails_def)
    from convertStep_found[OF notask Some nt] step nf 2 show ?thesis
      by (cases "env_fault env (fst ix) (pathOrEmpty (snd ix))") auto
  qed
qed

lemma convertLoop_records:
  assumes "\<forall>p. (snd st p = None) = (docs p = None)"
      and "ix \<in> set ixs" and "conversionFails env docs pre ix"
      and "convertLoop env opts pre n ixs st = (Inr r, v)"
  shows "\<exists>e \<in> set (conv_errors r). sublist (pathOrEmpty (snd ix)) e"
  using assms(1,2,4)
proof (induction ixs arbitrary: st)
  case Nil
  then show ?case by simp
next
  case (Cons a ixs)
  from convertLoop_Cons_Inr[OF Cons.prems(3)] obtain mid
    where m: "convertStep env opts pre n st a = Inr mid"
      and l: "convertLoop env opts pre n ixs mid = (Inr r, v)" by blast
  have dom': "\<forall>p. (snd mid p = None) = (docs p = None)"
    using convertStep_counts[OF Cons.prems(1) m] by blast
  show ?case
  proof (cases "ix = a")
    case True
    from convertStep_records[OF Cons.prems(1) assms(3) m[folded True]] obtain e
      where e: "e \<in> set (conv_errors (fst mid))" "sublist (pathOrEmpty (snd ix)) e" by blast
    then have "e \<in> set (conv_errors r)" using convertLoop_grows[OF l] by blast
    with e(2) show ?thesis by auto
  next
    case False
    with Cons.prems have "ix \<in> set ixs" by simp
    from Cons.IH[OF dom' this l] show ?thesis .
  qed
qed

lemma convertLoop_isl:
  "isl (fst (convertLoop env opts pre n ixs st)) \<longleftrightarrow> list_ex (roundThrows env opts pre n) ixs"
proof (induction ixs arbitrary: st)
  case Nil
  then show ?case by simp
next
  case (Cons ix ixs)
  show ?case
  proof (cases "convertStep env opts pre n st ix")
    case (Inl e)
    with convertStep_isl[of env opts pre n st ix] show ?thesis by simp
  next
    case (Inr mid)
    with convertStep_isl[of env opts pre n st ix] Cons.IH[of mid] show ?thesis by simp
  qed
qed

lemma convertNotes_returns_iff:
  "(\<exists>r. fst (convertNotes env docs items options) = Inr r)
     \<longleftrightarrow> \<not> conversionRejects env docs items options"
proof (cases "items = []")
  case True
  then show ?thesis by (simp add: convertNotes_def conversionRejects_def)
next
  case ne: False
  show ?thesis
  proof (cases "reportProgress (conv_onProgress options) 0 (length items)
                  ''Checking existing tasks...''")
    case (Some e)
    with ne show ?thesis by (simp add: convertNotes_def conversionRejects_def)
  next
    case None
    show ?thesis
    proof (cases "convertPreCheck env docs items")
      case (Inl e)
      with ne None show ?thesis by (simp add: convertNotes_def conversionRejects_def)
    next
      case (Inr pre)
      let ?run = "convertLoop env options pre (length items) (enumerate 0 items)
          (emptyConvertResult, docs)"
      have cn: "convertNotes env docs items options = ?run"
        using ne None Inr by (simp add: convertNotes_def)
      have "(\<exists>r. fst ?run = Inr r) \<longleftrightarrow> \<not> isl (fst ?run)" by (cases "fst ?run") simp_all
      also have "\<dots> \<longleftrightarrow> \<not> list_ex (roundThrows env options pre (length items)) (enumerate 0 items)"
        by (simp only: convertLoop_isl)
      finally show ?thesis using ne None Inr by (simp add: cn conversionRejects_def)
    qed
  qed
qed

lemma createTasks_reaches:
  assumes up: "upFrontCheck getAllTasks items options = Inr d"
      and i: "i < length items"
      and np: "\<forall>j \<le> i. \<not> progressThrowsAt options (length items) j"
      and ns: "\<not> skipsItem options d (items ! i)"
  shows "(i, buildTaskData ml options (items ! i))
           \<in> set (snd (createTasks ml svc getAllTasks items options))"
proof -
  have ne: "items \<noteq> []" using i by auto
  have ct: "createTasks ml svc getAllTasks items options
      = createLoop ml svc options d (length items)
          (enumerate 0 (take i items) @ (i, items ! i) # enumerate (Suc i) (drop (Suc i) items))
          (emptyCreationResult, [])"
    using ne up enumerate_split[OF i] by (simp add: createTasks_def)
  have "\<forall>jx \<in> set (enumerate 0 (take i items)) \<union> {(i, items ! i)}.
      \<not> progressThrowsAt options (length items) (fst jx)"
    using np by (auto simp: in_set_enumerate_eq)
  from createLoop_calls[OF this, of d ml svc _ "(emptyCreationResult, [])"] ns
  show ?thesis by (simp add: ct)
qed

lemma createTasks_processed:
  assumes r: "fst (createTasks ml svc getAllTasks items options) = Inr r"
      and up: "upFrontCheck getAllTasks items options = Inr d"
      and i: "i < length items" and ns: "\<not> skipsItem options d (items ! i)"
  shows "(i, buildTaskData ml options (items ! i))
           \<in> set (snd (createTasks ml svc getAllTasks items options))"
proof -
  have ne: "items \<noteq> []" using i by auto
  have "\<not> creationRejects getAllTasks items options"
    using createTasks_returns_iff[of ml svc getAllTasks items options] r by blast
  then have np: "\<forall>j \<le> i. \<not> progressThrowsAt options (length items) j"
    using ne i by (auto simp: creationRejects_def list_ex_iff)
  from createTasks_reaches[OF up i np ns] show ?thesis .
qed

lemma createTasks_loop:
  assumes "fst (createTasks ml svc getAllTasks items options) = Inr r" and "items \<noteq> []"
  shows "\<exists>d. upFrontCheck getAllTasks items options = Inr d \<and>
           createLoop ml svc options d (length items) (enumerate 0 items) (emptyCreationResult, [])
             = (Inr r, snd (createTasks ml svc getAllTasks items options))"
proof (cases "upFrontCheck getAllTasks items options")
  case (Inl e)
  with assms show ?thesis by (simp add: createTasks_def)
next
  case (Inr d)
  with assms have "createTasks ml svc getAllTasks items options
      = createLoop ml svc options d (length items) (enumerate 0 items) (emptyCreationResult, [])"
    by (simp add: createTasks_def)
  with assms(1) Inr show ?thesis by (metis prod.collapse)
qed

lemma createTasks_result:
  assumes "fst (createTasks ml svc getAllTasks items options) = Inr r"
  shows "created r + skipped r + failed r = length items \<and> length (errors r) = failed r"
proof (cases "items = []")
  case True
  with assms show ?thesis by (auto simp: createTasks_def emptyCreationResult_def)
next
  case False
  from createTasks_loop[OF assms False] obtain d where
    l: "createLoop ml svc options d (length items) (enumerate 0 items) (emptyCreationResult, [])
             = (Inr r, snd (createTasks ml svc getAllTasks items options))" by blast
  from createLoop_counts[OF l] show ?thesis by (simp add: emptyCreationResult_def)
qed

lemma createTasks_failures:
  assumes "fst (createTasks ml svc getAllTasks items options) = Inr r"
      and "upFrontCheck getAllTasks items options = Inr d"
  shows "failed r = length (filter (creationFails ml svc options d) (enumerate 0 items)) \<and>
         skipped r = length (filter (\<lambda>ix. skipsItem options d (snd ix)) (enumerate 0 items)) \<and>
         (\<forall>i < length items. creationFails ml svc options d (i, items ! i) \<longrightarrow>
            (\<exists>e \<in> set (errors r). sublist (pathOrEmpty (items ! i)) e))"
proof (cases "items = []")
  case True
  with assms show ?thesis by (auto simp: createTasks_def emptyCreationResult_def)
next
  case False
  from createTasks_loop[OF assms(1) False] assms(2) have
    l: "createLoop ml svc options d (length items) (enumerate 0 items) (emptyCreationResult, [])
             = (Inr r, snd (createTasks ml svc getAllTasks items options))" by auto
  have c: "failed r = length (filter (creationFails ml svc options d) (enumerate 0 items))"
    and k: "skipped r = length (filter (\<lambda>ix. skipsItem options d (snd ix)) (enumerate 0 items))"
    using createLoop_counts[OF l] by (simp_all add: emptyCreationResult_def)
  have e: "\<exists>e \<in> set (errors r). sublist (pathOrEmpty (items ! i)) e"
    if "i < length items" "creationFails ml svc options d (i, items ! i)" for i
    using createLoop_records[OF nth_in_enumerate[OF that(1)] that(2) l] by simp
  from c k e show ?thesis by blast
qed

lemma convertNotes_loop:
  assumes "fst (convertNotes env docs items options) = Inr r" and "items \<noteq> []"
  shows "\<exists>pre. convertPreCheck env docs items = Inr pre \<and>
           convertLoop env options pre (length items) (enumerate 0 items) (emptyConvertResult, docs)
             = (Inr r, snd (convertNotes env docs items options))"
proof (cases "reportProgress (conv_onProgress options) 0 (length items)
                ''Checking existing tasks...''")
  case (Some e)
  with assms show ?thesis by (simp add: convertNotes_def)
next
  case None
  show ?thesis
  proof (cases "convertPreCheck env docs items")
    case (Inl e)
    with assms None show ?thesis by (simp add: convertNotes_def)
  next
    case (Inr pre)
    with assms None have "convertNotes env docs items options
        = convertLoop env options pre (length items) (enumerate 0 items) (emptyConvertResult, docs)"
      by (simp add: convertNotes_def)
    with assms(1) Inr show ?thesis by (metis prod.collapse)
  qed
qed

lemma convertNotes_result:
  assumes "fst (convertNotes env docs items options) = Inr r"
  shows "converted r + conv_skipped r + conv_failed r = length items \<and>
         length (conv_errors r) = conv_failed r"
proof (cases "items = []")
  case True
  with assms show ?thesis by (auto simp: convertNotes_def emptyConvertResult_def)
next
  case False
  from convertNotes_loop[OF assms False] obtain pre where
    l: "convertLoop env options pre (length items) (enumerate 0 items) (emptyConvertResult, docs)
             = (Inr r, snd (convertNotes env docs items options))" by blast
  have dom: "\<forall>p. (snd (emptyConvertResult, docs) p = None) = (docs p = None)" by simp
  from convertLoop_counts[OF dom l] show ?thesis by (simp add: emptyConvertResult_def)
qed

lemma convertNotes_failures:
  assumes "fst (convertNotes env docs items options) = Inr r"
      and "convertPreCheck env docs items = Inr pre"
  shows "conv_failed r = length (filter (conversionFails env docs pre) (enumerate 0 items)) \<and>
         (\<forall>i < length items. conversionFails env docs pre (i, items ! i) \<longrightarrow>
            (\<exists>e \<in> set (conv_errors r). sublist (pathOrEmpty (items ! i)) e))"
proof (cases "items = []")
  case True
  with assms show ?thesis by (auto simp: convertNotes_def emptyConvertResult_def)
next
  case False
  from convertNotes_loop[OF assms(1) False] assms(2) have
    l: "convertLoop env options pre (length items) (enumerate 0 items) (emptyConvertResult, docs)
             = (Inr r, snd (convertNotes env docs items options))" by auto
  have dom: "\<forall>p. (snd (emptyConvertResult, docs) p = None) = (docs p = None)" by simp
  have c: "conv_failed r = length (filter (conversionFails env docs pre) (enumerate 0 items))"
    using convertLoop_counts[OF dom l] by (simp add: emptyConvertResult_def)
  have e: "\<exists>e \<in> set (conv_errors r). sublist (pathOrEmpty (items ! i)) e"
    if "i < length items" "conversionFails env docs pre (i, items ! i)" for i
    using convertLoop_records[OF dom nth_in_enumerate[OF that(1)] that(2) l] by simp
  from c e show ?thesis by blast
qed

lemma sample_creation:
  "createTasks (\<lambda>p. None) sampleService (Inr sampleTasks) sampleItems sampleCreationOptions
     = (Inr \<lparr>created = 1, skipped = 1, failed = 2,
             errors = [''Failed to create task for: Docs/B.md'', ''Error for Docs/C.md: disk full''],
             createdPaths = [''Tasks/Untitled task.md'']\<rparr>,
        [(1, buildTaskData (\<lambda>p. None) sampleCreationOptions (sampleItems ! 1)),
         (2, buildTaskData (\<lambda>p. None) sampleCreationOptions (sampleItems ! 2)),
         (3, buildTaskData (\<lambda>p. None) sampleCreationOptions (sampleItems ! 3))])"
  by code_simp

lemma sample_conversion:
  "fst (convertNotes sampleEnv sampleVault sampleItems sampleConvertOptions)
     = Inr \<lparr>converted = 1, conv_skipped = 1, conv_failed = 2,
            conv_errors = [''File not found: '', ''Error for Docs/C.md: read-only file''],
            convertedPaths = [''Docs/B.md'']\<rparr>"
  by code_simp

lemma sample_upFrontCheck:
  "upFrontCheck (Inr sampleTasks) sampleItems sampleCreationOptions
     = Inr (Some \<lparr>existingTaskPaths = [''Docs/A.md''],
                  sourceToTaskMap = [(''Docs/A.md'', [''Tasks/A.md''])]\<rparr>)"
  by code_simp

lemma sample_convertPreCheck:
  "convertPreCheck sampleEnv sampleVault sampleItems
     = Inr \<lparr>toConvert = 3, alreadyTasks = 1, alreadyTaskPaths = [''Docs/A.md'']\<rparr>"
  by code_simp

lemma sample_creation_fails:
  "creationFails (\<lambda>p. None) sampleService sampleCreationOptions
     (Some \<lparr>existingTaskPaths = [''Docs/A.md''],
            sourceToTaskMap = [(''Docs/A.md'', [''Tasks/A.md''])]\<rparr>) (3, sampleItems ! 3)"
  by code_simp

lemma sample_conversion_fails:
  "conversionFails sampleEnv sampleVault
     \<lparr>toConvert = 3, alreadyTasks = 1, alreadyTaskPaths = [''Docs/A.md'']\<rparr> (3, sampleItems ! 3)"
  by code_simp

text \<open>
  Claim C9, as the specification states it, fails: \<open>createTasks\<close> and \<open>convertNotes\<close> do not
  always return the structured result. With \<open>skipExisting\<close> on, an error of the cache
  manager's \<open>getAllTasks\<close> leaves \<open>createTasks\<close> before any item is looked at; an error of the
  progress callback before the third item leaves it after the first two items were dealt
  with (one call to the task service was made), and the counts gathered so far are lost; in
  \<open>convertNotes\<close> an error of the metadata cache during the pre-check, or of the progress
  callback before the second item, does the same.
\<close>

theorem batch_rejects_past_boundary:
  "createTasks (\<lambda>p. None) sampleService (Inl ''cache not ready'') sampleItems sampleCreationOptions
     = (Inl ''cache not ready'', []) \<and>
   fst (createTasks (\<lambda>p. None) sampleService (Inr sampleTasks) sampleItems
          (sampleCreationOptions\<lparr>onProgress :=
             Some (\<lambda>current n status. if status = ''Creating task 3 of 4...''
                                       then Some ''view closed'' else None)\<rparr>))
     = Inl ''view closed'' \<and>
   map fst (snd (createTasks (\<lambda>p. None) sampleService (Inr sampleTasks) sampleItems
          (sampleCreationOptions\<lparr>onProgress :=
             Some (\<lambda>current n status. if status = ''Creating task 3 of 4...''
                                       then Some ''view closed'' else None)\<rparr>)))
     = [1] \<and>
   fst (convertNotes
          (sampleEnv\<lparr>env_throws := (\<lambda>c i p. if c = PreCheckCache \<and> i = 1
                                              then Some ''cache error'' else None)\<rparr>)
          sampleVault sampleItems sampleConvertOptions)
     = Inl ''cache error'' \<and>
   fst (convertNotes sampleEnv sampleVault sampleItems
          (sampleConvertOptions\<lparr>conv_onProgress :=
             Some (\<lambda>current n status. if status = ''Converting 2 of 4...''
                                       then Some ''view closed'' else None)\<rparr>))
     = Inl ''view closed''"
  by code_simp

text \<open>
  Claim C9, amended. \<open>createTasks\<close> returns the structured result exactly when nothing
  outside its \<open>try\<close> throws (the progress callback, and with \<open>skipExisting\<close> the read of the
  existing tasks), and \<open>convertNotes\<close> exactly when neither the progress callback, nor the
  pre-check, nor the lookup of the file of an item that is not skipped throws; whether an
  item fails has no part in that. In the result that is returned every item of the batch
  is accounted for exactly once (created or converted, skipped, or failed), whatever happened
  to the others; the failed count is the number of items that fail (a call that throws or
  answers no file, a missing file, a rejected conversion); there is one error string per
  failure, and the string of a failing item contains its source path; and the task service
  has been called for every item that is not skipped.
\<close>

theorem batch_failures_are_recorded:
  "((\<exists>r. fst (createTasks markdownLink svc getAllTasks items options) = Inr r)
      \<longleftrightarrow> \<not> creationRejects getAllTasks items options) \<and>
   (\<forall>r. fst (createTasks markdownLink svc getAllTasks items options) = Inr r \<longrightarrow>
      created r + skipped r + failed r = length items \<and>
      length (errors r) = failed r \<and>
      (\<forall>d. upFrontCheck getAllTasks items options = Inr d \<longrightarrow>
         failed r = length (filter (creationFails markdownLink svc options d) (enumerate 0 items)) \<and>
         (\<forall>i < length items. creationFails markdownLink svc options d (i, items ! i) \<longrightarrow>
            (\<exists>e \<in> set (errors r). sublist (pathOrEmpty (items ! i)) e)) \<and>
         (\<forall>i < length items. \<not> skipsItem options d (items ! i) \<longrightarrow>
            (i, buildTaskData markdownLink options (items ! i))
              \<in> set (snd (createTasks markdownLink svc getAllTasks items options))))) \<and>
   ((\<exists>r. fst (convertNotes env docs items convertOptions) = Inr r)
      \<longleftrightarrow> \<not> conversionRejects env docs items convertOptions) \<and>
   (\<forall>r. fst (convertNotes env docs items convertOptions) = Inr r \<longrightarrow>
      converted r + conv_skipped r + conv_failed r = length items \<and>
      length (conv_errors r) = conv_failed r \<and>
      (\<forall>pre. convertPreCheck env docs items = Inr pre \<longrightarrow>
         conv_failed r = length (filter (conversionFails env docs pre) (enumerate 0 items)) \<and>
         (\<forall>i < length items. conversionFails env docs pre (i, items ! i) \<longrightarrow>
            (\<exists>e \<in> set (conv_errors r). sublist (pathOrEmpty (items ! i)) e))))"
proof -
  note a = createTasks_returns_iff[of markdownLink svc getAllTasks items options]
  have b: "created r + skipped r + failed r = length items \<and> length (errors r) = failed r"
    if "fst (createTasks markdownLink svc getAllTasks items options) = Inr r" for r
    using createTasks_result[OF that] .
  have c: "failed r = length (filter (creationFails markdownLink svc options d) (enumerate 0 items)) \<and>
         (\<forall>i < length items. creationFails markdownLink svc options d (i, items ! i) \<longrightarrow>
            (\<exists>e \<in> set (errors r). sublist (pathOrEmpty (items ! i)) e)) \<and>
         (\<forall>i < length items. \<not> skipsItem options d (items ! i) \<longrightarrow>
            (i, buildTaskData markdownLink options (items ! i))
              \<in> set (snd (createTasks markdownLink svc getAllTasks items options)))"
    if "fst (createTasks markdownLink svc getAllTasks items options) = Inr r"
      "upFrontCheck getAllTasks items options = Inr d" for r d
    using createTasks_failures[OF that] createTasks_processed[OF that] by blast
  note a' = convertNotes_returns_iff[of env docs items convertOptions]
  have b': "converted r + conv_skipped r + conv_failed r = length items \<and>
      length (conv_errors r) = conv_failed r"
    if "fst (convertNotes env docs items convertOptions) = Inr r" for r
    using convertNotes_result[OF that] .
  have c': "conv_failed r = length (filter (conversionFails env docs pre) (enumerate 0 items)) \<and>
         (\<forall>i < length items. conversionFails env docs pre (i, items ! i) \<longrightarrow>
            (\<exists>e \<in> set (conv_errors r). sublist (pathOrEmpty (items ! i)) e))"
    if "fst (convertNotes env docs items convertOptions) = Inr r"
      "convertPreCheck env docs items = Inr pre" for r pre
    using convertNotes_failures[OF that] .
  show ?thesis
    apply (intro conjI allI impI)
    using a b c a' b' c' by blast+
qed

theorem batch_failures_are_recorded_witness:
  "(\<exists>r. fst (createTasks (\<lambda>p. None) sampleService (Inr sampleTasks) sampleItems
             sampleCreationOptions) = Inr r \<and>
        created r + skipped r + failed r = length sampleItems \<and>
        failed r = 2 \<and> length (errors r) = 2 \<and>
        (\<exists>e \<in> set (errors r). sublist (pathOrEmpty (sampleItems ! 3)) e)) \<and>
   (\<exists>r. fst (convertNotes sampleEnv sampleVault sampleItems sampleConvertOptions) = Inr r \<and>
        converted r + conv_skipped r + conv_failed r = length sampleItems \<and>
        conv_failed r = 2 \<and> length (conv_errors r) = 2 \<and>
        (\<exists>e \<in> set (conv_errors r). sublist (pathOrEmpty (sampleItems ! 3)) e)) \<and>
   \<not> creationRejects (Inr sampleTasks) sampleItems sampleCreationOptions \<and>
   \<not> conversionRejects sampleEnv sampleVault sampleItems sampleConvertOptions"
proof -
  have len: "3 < length sampleItems" by (simp add: sampleItems_def)
  note t = batch_failures_are_recorded[of "\<lambda>p. None" sampleService "Inr sampleTasks" sampleItems
      sampleCreationOptions sampleEnv sampleVault sampleConvertOptions]
  have c: "fst (createTasks (\<lambda>p. None) sampleService (Inr sampleTasks) sampleItems
             sampleCreationOptions)
     = Inr \<lparr>created = 1, skipped = 1, failed = 2,
            errors = [''Failed to create task for: Docs/B.md'', ''Error for Docs/C.md: disk full''],
            createdPaths = [''Tasks/Untitled task.md'']\<rparr>"
    by (simp add: sample_creation)
  from t c sample_upFrontCheck sample_creation_fails len
  have 1: "\<exists>e \<in> set (errors \<lparr>created = 1, skipped = 1, failed = 2,
            errors = [''Failed to create task for: Docs/B.md'', ''Error for Docs/C.md: disk full''],
            createdPaths = [''Tasks/Untitled task.md'']\<rparr>).
         sublist (pathOrEmpty (sampleItems ! 3)) e"
    by blast
  from t sample_conversion sample_convertPreCheck sample_conversion_fails len
  have 2: "\<exists>e \<in> set (conv_errors \<lparr>converted = 1, conv_skipped = 1, conv_failed = 2,
            conv_errors = [''File not found: '', ''Error for Docs/C.md: read-only file''],
            convertedPaths = [''Docs/B.md'']\<rparr>).
         sublist (pathOrEmpty (sampleItems ! 3)) e"
    by blast
  from t c have 3: "\<not> creationRejects (Inr sampleTasks) sampleItems sampleCreationOptions"
    by blast
  from t sample_conversion
  have 4: "\<not> conversionRejects sampleEnv sampleVault sampleItems sampleConvertOptions"
    by blast
  have l4: "length sampleItems = 4" by (simp add: sampleItems_def)
  from 1 2 3 4 show ?thesis
    by (simp only: c sample_conversion) (simp add: l4)
qed








section \<open>Properties of the watcher\<close>

lemma recordResults_fields [simp]:
  "snoozedUntil (recordResults m r) = snoozedUntil m"
  "mb_path (recordResults m r) = mb_path m"
  "mb_name (recordResults m r) = mb_name m"
  by (auto simp: recordResults_def split: option.splits)

lemma recordResults_cached:
  "cachedPaths (recordResults m r) = (case r of Some rs \<Rightarrow> set (map ni_path rs) | None \<Rightarrow> {})"
  by (auto simp: recordResults_def split: option.splits)

lemma recordResults_idem: "recordResults (recordResults m r) r = recordResults m r"
  by (auto simp: recordResults_def split: option.splits)

lemma afterEvaluation_fields [simp]:
  "snoozedUntil (afterEvaluation host clock p m) = snoozedUntil m"
  "mb_path (afterEvaluation host clock p m) = mb_path m"
  by (auto simp: afterEvaluation_def split: outcome.splits)

lemma afterEvaluation_idem:
  "afterEvaluation host clock p (afterEvaluation host clock p m) = afterEvaluation host clock p m"
  by (auto simp: afterEvaluation_def recordResults_idem split: outcome.splits)

lemma showNotification_fields [simp]:
  "monitoredBases (showNotification m rs w) = monitoredBases w"
  "evaluated (showNotification m rs w) = evaluated w"
  "timers (showNotification m rs w) = timers w"
  "evaluationDebounceTimer (showNotification m rs w) = evaluationDebounceTimer w"
  "passes (showNotification m rs w) = passes w"
  "pendingEvaluations (showNotification m rs w) = pendingEvaluations w"
  "dispatched (showNotification m rs w) = dispatched w @
     [\<lparr>baseFilePath_of = mb_path m, baseName_of = mb_name m, items_of = rs, maxDisplayItems = 5\<rparr>]"
  by (simp_all add: showNotification_def)

lemma evaluateOne_registry:
  "monitoredBases (evaluateOne host clock w p) =
     (case map_of (monitoredBases w) p of
        None \<Rightarrow> monitoredBases w
      | Some m \<Rightarrow> AList.update p (afterEvaluation host clock p m) (monitoredBases w))"
proof (cases "map_of (monitoredBases w) p")
  case None
  then show ?thesis by (simp add: evaluateOne_def)
next
  case (Some m)
  have same: "AList.update p m (monitoredBases w) = monitoredBases w"
    using Some by (simp add: update_triv)
  show ?thesis
    using Some same
    by (auto simp: evaluateOne_def afterEvaluation_def Let_def split: outcome.splits option.splits)
qed

lemma evaluateOne_lookup:
  "map_of (monitoredBases (evaluateOne host clock w p)) q =
     (if p = q then map_option (afterEvaluation host clock q) (map_of (monitoredBases w) q)
      else map_of (monitoredBases w) q)"
  by (cases "map_of (monitoredBases w) p")
     (auto simp: evaluateOne_registry update_conv')

lemma evaluateOne_isDue: "isDue clock (evaluateOne host clock w p) q = isDue clock w q"
  by (cases "map_of (monitoredBases w) q") (auto simp: isDue_def evaluateOne_lookup)

lemma evaluateOne_evaluated:
  "evaluated (evaluateOne host clock w p) = evaluated w @ (if isDue clock w p then [p] else [])"
  by (auto simp: evaluateOne_def isDue_def Let_def split: option.splits outcome.splits)

lemma evaluateOne_frame [simp]:
  "timers (evaluateOne host clock w p) = timers w"
  "evaluationDebounceTimer (evaluateOne host clock w p) = evaluationDebounceTimer w"
  "passes (evaluateOne host clock w p) = passes w"
  "pendingEvaluations (evaluateOne host clock w p) = pendingEvaluations w"
  by (auto simp: evaluateOne_def Let_def split: option.splits outcome.splits)

lemma foldl_evaluateOne_frame [simp]:
  "timers (foldl (evaluateOne host clock) w ps) = timers w"
  "evaluationDebounceTimer (foldl (evaluateOne host clock) w ps) = evaluationDebounceTimer w"
  "passes (foldl (evaluateOne host clock) w ps) = passes w"
  "pendingEvaluations (foldl (evaluateOne host clock) w ps) = pendingEvaluations w"
  by (induction ps arbitrary: w) simp_all

lemma foldl_evaluateOne_isDue:
  "isDue clock (foldl (evaluateOne host clock) w ps) q = isDue clock w q"
  by (induction ps arbitrary: w) (simp_all add: evaluateOne_isDue)

lemma foldl_evaluateOne_lookup:
  "map_of (monitoredBases (foldl (evaluateOne host clock) w ps)) q =
     (if q \<in> set ps then map_option (afterEvaluation host clock q) (map_of (monitoredBases w) q)
      else map_of (monitoredBases w) q)"
proof (induction ps arbitrary: w)
  case Nil
  then show ?case by simp
next
  case (Cons p ps)
  show ?case
    by (cases "map_of (monitoredBases w) q")
       (auto simp: Cons.IH evaluateOne_lookup afterEvaluation_idem)
qed

lemma foldl_evaluateOne_evaluated:
  "evaluated (foldl (evaluateOne host clock) w ps) = evaluated w @ filter (isDue clock w) ps"
proof (induction ps arbitrary: w)
  case Nil
  then show ?case by simp
next
  case (Cons p ps)
  have "isDue clock (evaluateOne host clock w p) = isDue clock w"
    by (rule ext) (rule evaluateOne_isDue)
  then have "filter (isDue clock (evaluateOne host clock w p)) ps = filter (isDue clock w) ps"
    by simp
  then show ?case by (simp add: Cons.IH evaluateOne_evaluated)
qed

lemma evaluatePendingBases_unfold:
  "evaluatePendingBases host clock w =
     (if pendingEvaluations w = [] then w
      else foldl (evaluateOne host clock)
             (w\<lparr>passes := passes w @ [pendingEvaluations w], pendingEvaluations := []\<rparr>)
             (pendingEvaluations w))"
  by (simp add: evaluatePendingBases_def Let_def)

lemma evaluatePendingBases_lookup:
  "map_of (monitoredBases (evaluatePendingBases host clock w)) q =
     (if q \<in> set (pendingEvaluations w)
      then map_option (afterEvaluation host clock q) (map_of (monitoredBases w) q)
      else map_of (monitoredBases w) q)"
  by (simp add: evaluatePendingBases_unfold foldl_evaluateOne_lookup)

lemma evaluatePendingBases_evaluated:
  "evaluated (evaluatePendingBases host clock w)
     = evaluated w @ filter (isDue clock w) (pendingEvaluations w)"
proof -
  let ?w0 = "w\<lparr>passes := passes w @ [pendingEvaluations w], pendingEvaluations := []\<rparr>"
  have due: "isDue clock ?w0 = isDue clock w"
    by (rule ext) (simp add: isDue_def)
  show ?thesis
    by (simp add: evaluatePendingBases_unfold foldl_evaluateOne_evaluated due)
qed

lemma evaluatePendingBases_frame:
  "timers (evaluatePendingBases host clock w) = timers w"
  "evaluationDebounceTimer (evaluatePendingBases host clock w) = evaluationDebounceTimer w"
  "passes (evaluatePendingBases host clock w)
     = passes w @ (if pendingEvaluations w = [] then [] else [pendingEvaluations w])"
  "pendingEvaluations (evaluatePendingBases host clock w) = []"
  by (simp_all add: evaluatePendingBases_unfold)

lemma evaluateBaseQuery_Threw:
  "evaluateBaseQuery host q = Threw \<longleftrightarrow> lookupThrows host q"
  by (simp add: evaluateBaseQuery_def split: option.splits)

lemma fallback_answers_null:
  "fallbackThrows host q \<Longrightarrow> evaluateWithTemporaryView host q = None"
  by (auto simp: fallbackThrows_def evaluateWithTemporaryView_def Let_def split: option.splits)

lemma evaluateBaseQuery_fallback:
  "reachesFallback host q \<Longrightarrow> fallbackThrows host q \<Longrightarrow> evaluateBaseQuery host q = Returned None"
  by (simp add: reachesFallback_def evaluateBaseQuery_def fallback_answers_null)

lemma sample_registry:
  "map_of (monitoredBases sampleWatcher) ''q1.base'' = Some (sampleBase ''q1.base'' 0 {''Docs/old.md''})"
  "map_of (monitoredBases sampleWatcher) ''q2.base'' = Some (sampleBase ''q2.base'' 0 {''Docs/y.md''})"
  "map_of (monitoredBases sampleWatcher) ''q3.base'' = Some (sampleBase ''q3.base'' 0 {''Docs/z.md''})"
  "map_of (monitoredBases sampleWatcher) ''q4.base'' = Some (sampleBase ''q4.base'' 900000 {''Docs/a.md''})"
  by (simp_all add: sampleWatcher_def emptyWatcher_def)

lemma sample_pending:
  "pendingEvaluations sampleWatcher = [''q1.base'', ''q2.base'', ''q3.base'', ''q4.base'']"
  by (simp add: sampleWatcher_def emptyWatcher_def)

lemma sample_queries:
  "evaluateBaseQuery sampleWatcherHost ''q1.base''
     = Returned (Some [sampleNote ''Docs/a.md'', sampleNote ''Docs/b.md''])"
  "evaluateBaseQuery sampleWatcherHost ''q2.base'' = Threw"
  "evaluateBaseQuery sampleWatcherHost ''q3.base'' = Returned (Some [])"
  by (simp_all add: evaluateBaseQuery_def sampleWatcherHost_def sampleBaseFile_def)

lemma sample_fallback:
  "reachesFallback (sampleWatcherHost\<lparr>evaluateSourceFilter := (\<lambda>src. None)\<rparr>) ''q4.base''"
  "fallbackThrows (sampleWatcherHost\<lparr>evaluateSourceFilter := (\<lambda>src. None)\<rparr>) ''q4.base''"
  by (simp_all add: reachesFallback_def fallbackThrows_def sampleWatcherHost_def sampleBaseFile_def
      parseBaseConfig_def truthyStr_def)

text \<open>
  Claim C5, as the specification states it, fails for the failure it names: an error of the
  fallback evaluation is caught inside \<open>evaluateWithTemporaryView\<close>, which answers \<open>null\<close>, and
  the pass clears the cached set of the query as it does for an evaluation without results.
  Here the query \<open>q4.base\<close>, whose snooze has run out, has no open view and a cached set of
  one path; the evaluation of its source filter throws, and after the pass its cached set is
  empty, so it is neither unchanged nor the path set of a successful evaluation.
\<close>

theorem fallback_failure_clears_cache:
  "reachesFallback (sampleWatcherHost\<lparr>evaluateSourceFilter := (\<lambda>src. None)\<rparr>) ''q4.base'' \<and>
   fallbackThrows (sampleWatcherHost\<lparr>evaluateSourceFilter := (\<lambda>src. None)\<rparr>) ''q4.base'' \<and>
   ''q4.base'' \<in> set (pendingEvaluations sampleWatcher) \<and>
   map_option snoozedUntil (map_of (monitoredBases sampleWatcher) ''q4.base'') = Some 900000 \<and>
   map_option cachedPaths (map_of (monitoredBases sampleWatcher) ''q4.base'')
     = Some {''Docs/a.md''} \<and>
   map_option cachedPaths
     (map_of (monitoredBases
        (evaluatePendingBases (sampleWatcherHost\<lparr>evaluateSourceFilter := (\<lambda>src. None)\<rparr>)
           (\<lambda>p. 1000000) sampleWatcher)) ''q4.base'')
     = Some {} \<and>
   map_option lastResultCount
     (map_of (monitoredBases
        (evaluatePendingBases (sampleWatcherHost\<lparr>evaluateSourceFilter := (\<lambda>src. None)\<rparr>)
           (\<lambda>p. 1000000) sampleWatcher)) ''q4.base'')
     = Some 0"
proof -
  note f = sample_fallback
  have e: "evaluateBaseQuery (sampleWatcherHost\<lparr>evaluateSourceFilter := (\<lambda>src. None)\<rparr>) ''q4.base''
      = Returned None"
    using evaluateBaseQuery_fallback[OF f] .
  show ?thesis
    using f
    by (simp add: evaluatePendingBases_lookup sample_registry sample_pending afterEvaluation_def e
        recordResults_def sampleBase_def)
qed

text \<open>
  Claim C5, amended. After an evaluation pass, a registered query that was pending and not
  snoozed has as its cached set exactly the paths of the results its evaluation returned,
  the empty set when the results are empty or \<open>null\<close>; in particular, when its fallback
  evaluation throws, the cached set is cleared and the result count set to zero. Only an
  error that leaves \<open>evaluateBaseQuery\<close>, which is an error of the host's lookups, leaves
  the record of the query as it was before the pass; a query that was not pending, or is
  snoozed, keeps its record too. Every pending query that is registered and not snoozed is
  handed to the evaluation, in order, whatever the evaluations before it did.
\<close>

theorem evaluation_pass_updates_cache:
  assumes "map_of (monitoredBases w) q = Some m"
  shows "\<exists>m'. map_of (monitoredBases (evaluatePendingBases host clock w)) q = Some m' \<and>
           (if q \<in> set (pendingEvaluations w) \<and> snoozedUntil m \<le> clock q
            then (case evaluateBaseQuery host q of
                    Threw \<Rightarrow> m' = m
                  | Returned results \<Rightarrow>
                      cachedPaths m' = (case results of Some rs \<Rightarrow> set (map ni_path rs) | None \<Rightarrow> {}) \<and>
                      lastResultCount m' = (case results of Some rs \<Rightarrow> length rs | None \<Rightarrow> 0))
            else m' = m) \<and>
           (q \<in> set (pendingEvaluations w) \<and> snoozedUntil m \<le> clock q \<and>
            reachesFallback host q \<and> fallbackThrows host q \<longrightarrow>
              cachedPaths m' = {} \<and> lastResultCount m' = 0) \<and>
           (evaluateBaseQuery host q = Threw \<longleftrightarrow> lookupThrows host q) \<and>
           evaluated (evaluatePendingBases host clock w)
             = evaluated w @ filter (isDue clock w) (pendingEvaluations w)"
proof -
  define m' where
    "m' = (if q \<in> set (pendingEvaluations w) then afterEvaluation host clock q m else m)"
  have look: "map_of (monitoredBases (evaluatePendingBases host clock w)) q = Some m'"
    using assms by (simp add: evaluatePendingBases_lookup m'_def)
  have ev: "evaluated (evaluatePendingBases host clock w)
             = evaluated w @ filter (isDue clock w) (pendingEvaluations w)"
    by (rule evaluatePendingBases_evaluated)
  have 1: "(if q \<in> set (pendingEvaluations w) \<and> snoozedUntil m \<le> clock q
         then (case evaluateBaseQuery host q of
                 Threw \<Rightarrow> m' = m
               | Returned results \<Rightarrow>
                   cachedPaths m' = (case results of Some rs \<Rightarrow> set (map ni_path rs) | None \<Rightarrow> {}) \<and>
                   lastResultCount m' = (case results of Some rs \<Rightarrow> length rs | None \<Rightarrow> 0))
         else m' = m)"
    by (auto simp: m'_def afterEvaluation_def recordResults_def split: outcome.splits option.splits)
  have 2: "cachedPaths m' = {} \<and> lastResultCount m' = 0"
    if "q \<in> set (pendingEvaluations w) \<and> snoozedUntil m \<le> clock q \<and>
        reachesFallback host q \<and> fallbackThrows host q"
    using that evaluateBaseQuery_fallback[of host q]
    by (simp add: m'_def afterEvaluation_def recordResults_def)
  from look 1 2 ev evaluateBaseQuery_Threw[of host q] show ?thesis by blast
qed

theorem evaluation_pass_updates_cache_witness:
  "(\<exists>m'. map_of (monitoredBases (evaluatePendingBases sampleWatcherHost (\<lambda>p. 2000) sampleWatcher))
            ''q1.base'' = Some m' \<and> cachedPaths m' = {''Docs/a.md'', ''Docs/b.md''}) \<and>
   map_of (monitoredBases (evaluatePendingBases sampleWatcherHost (\<lambda>p. 2000) sampleWatcher))
     ''q2.base'' = Some (sampleBase ''q2.base'' 0 {''Docs/y.md''}) \<and>
   (\<exists>m'. map_of (monitoredBases (evaluatePendingBases sampleWatcherHost (\<lambda>p. 2000) sampleWatcher))
            ''q3.base'' = Some m' \<and> cachedPaths m' = {}) \<and>
   (\<exists>m'. map_of (monitoredBases
             (evaluatePendingBases (sampleWatcherHost\<lparr>evaluateSourceFilter := (\<lambda>src. None)\<rparr>)
                (\<lambda>p. 1000000) sampleWatcher)) ''q4.base'' = Some m' \<and>
          cachedPaths m' = {} \<and> lastResultCount m' = 0)"
proof -
  have 1: "\<exists>m'. map_of (monitoredBases (evaluatePendingBases sampleWatcherHost (\<lambda>p. 2000) sampleWatcher))
            ''q1.base'' = Some m' \<and> cachedPaths m' = {''Docs/a.md'', ''Docs/b.md''}"
    using evaluation_pass_updates_cache[OF sample_registry(1), of sampleWatcherHost "\<lambda>p. 2000"]
    by (auto simp: sample_pending sample_queries sampleBase_def sampleNote_def)
  have 2: "map_of (monitoredBases (evaluatePendingBases sampleWatcherHost (\<lambda>p. 2000) sampleWatcher))
     ''q2.base'' = Some (sampleBase ''q2.base'' 0 {''Docs/y.md''})"
    using evaluation_pass_updates_cache[OF sample_registry(2), of sampleWatcherHost "\<lambda>p. 2000"]
    by (auto simp: sample_pending sample_queries sampleBase_def sampleNote_def)
  have 3: "\<exists>m'. map_of (monitoredBases (evaluatePendingBases sampleWatcherHost (\<lambda>p. 2000) sampleWatcher))
            ''q3.base'' = Some m' \<and> cachedPaths m' = {}"
    using evaluation_pass_updates_cache[OF sample_registry(3), of sampleWatcherHost "\<lambda>p. 2000"]
    by (auto simp: sample_pending sample_queries sampleBase_def sampleNote_def)
  have 4: "\<exists>m'. map_of (monitoredBases
             (evaluatePendingBases (sampleWatcherHost\<lparr>evaluateSourceFilter := (\<lambda>src. None)\<rparr>)
                (\<lambda>p. 1000000) sampleWatcher)) ''q4.base'' = Some m' \<and>
          cachedPaths m' = {} \<and> lastResultCount m' = 0"
    using evaluation_pass_updates_cache[OF sample_registry(4),
        of "sampleWatcherHost\<lparr>evaluateSourceFilter := (\<lambda>src. None)\<rparr>" "\<lambda>p. 1000000"]
      sample_fallback
    by (auto simp: sample_pending sampleBase_def)
  from 1 2 3 4 show ?thesis by blast
qed

lemma list_all_update:
  "list_all P xs \<Longrightarrow> P (k, v) \<Longrightarrow> list_all P (AList.update k v xs)"
  by (induction xs) auto

lemma registryOk_lookup:
  "registryOk w \<Longrightarrow> map_of (monitoredBases w) p = Some m \<Longrightarrow> mb_path m = p"
  by (auto simp: registryOk_def list_all_iff dest!: map_of_SomeD)

lemma evaluateOne_dispatched:
  assumes "registryOk w"
  shows "\<exists>ds. dispatched (evaluateOne host clock w p) = dispatched w @ ds \<and>
               (\<forall>n \<in> set ds. baseFilePath_of n = p \<and> isDue clock w p) \<and>
               registryOk (evaluateOne host clock w p)"
proof (cases "map_of (monitoredBases w) p")
  case None
  then show ?thesis using assms by (simp add: evaluateOne_def)
next
  case (Some m)
  have pm: "mb_path m = p" using registryOk_lookup[OF assms Some] .
  have ok: "registryOk (evaluateOne host clock w p)"
    using assms Some pm
    by (simp add: registryOk_def evaluateOne_registry list_all_update)
  show ?thesis
  proof (cases "snoozedUntil m > clock p")
    case True
    then show ?thesis using Some ok by (simp add: evaluateOne_def)
  next
    case False
    then have d: "isDue clock w p" using Some by (simp add: isDue_def)
    have "\<exists>ds. dispatched (evaluateOne host clock w p) = dispatched w @ ds \<and>
               (\<forall>n \<in> set ds. baseFilePath_of n = p)"
      using Some False pm
      by (auto simp: evaluateOne_def Let_def split: outcome.splits option.splits)
    with d ok show ?thesis by blast
  qed
qed

lemma foldl_evaluateOne_dispatched:
  assumes "registryOk w"
  shows "\<exists>ds. dispatched (foldl (evaluateOne host clock) w ps) = dispatched w @ ds \<and>
               (\<forall>n \<in> set ds. baseFilePath_of n \<in> set (filter (isDue clock w) ps))"
  using assms
proof (induction ps arbitrary: w)
  case Nil
  then show ?case by simp
next
  case (Cons p ps)
  from evaluateOne_dispatched[OF Cons.prems, of host clock p] obtain ds1 where
    1: "dispatched (evaluateOne host clock w p) = dispatched w @ ds1"
    and 2: "\<forall>n \<in> set ds1. baseFilePath_of n = p \<and> isDue clock w p"
    and ok: "registryOk (evaluateOne host clock w p)" by blast
  from Cons.IH[OF ok] obtain ds2 where
    3: "dispatched (foldl (evaluateOne host clock) (evaluateOne host clock w p) ps)
          = dispatched (evaluateOne host clock w p) @ ds2"
    and 4: "\<forall>n \<in> set ds2. baseFilePath_of n
          \<in> set (filter (isDue clock (evaluateOne host clock w p)) ps)" by blast
  have due: "isDue clock (evaluateOne host clock w p) = isDue clock w"
    by (rule ext) (rule evaluateOne_isDue)
  have "dispatched (foldl (evaluateOne host clock) w (p # ps)) = dispatched w @ (ds1 @ ds2)"
    using 1 3 by simp
  moreover have "\<forall>n \<in> set (ds1 @ ds2). baseFilePath_of n \<in> set (filter (isDue clock w) (p # ps))"
    using 2 4 due by auto
  ultimately show ?case by blast
qed

lemma setAdd_grows: "set pending \<subseteq> set (setAdd x pending)"
  by (auto simp: setAdd_def)

lemma markCached_grows: "set pending \<subseteq> set (markCached p bases pending)"
proof (induction bases arbitrary: pending)
  case Nil
  then show ?case by (simp add: markCached_def)
next
  case (Cons bm bases)
  let ?next = "if p \<in> cachedPaths (snd bm) then setAdd (fst bm) pending else pending"
  have a: "set pending \<subseteq> set ?next" by (simp add: setAdd_grows)
  have b: "set ?next \<subseteq> set (markCached p bases ?next)" by (rule Cons.IH)
  have c: "markCached p (bm # bases) pending = markCached p bases ?next"
    by (simp only: markCached_def foldl_Cons)
  from a b show ?case unfolding c by (rule subset_trans)
qed

lemma markNotSnoozed_grows: "set pending \<subseteq> set (markNotSnoozed now bases pending)"
proof (induction bases arbitrary: pending)
  case Nil
  then show ?case by (simp add: markNotSnoozed_def)
next
  case (Cons bm bases)
  let ?next = "if snoozedUntil (snd bm) \<le> now then setAdd (fst bm) pending else pending"
  have a: "set pending \<subseteq> set ?next" by (simp add: setAdd_grows)
  have b: "set ?next \<subseteq> set (markNotSnoozed now bases ?next)" by (rule Cons.IH)
  have c: "markNotSnoozed now (bm # bases) pending = markNotSnoozed now bases ?next"
    by (simp only: markNotSnoozed_def foldl_Cons)
  from a b show ?case unfolding c by (rule subset_trans)
qed

lemma markCached_marks:
  "(q, m) \<in> set bases \<Longrightarrow> p \<in> cachedPaths m \<Longrightarrow> q \<in> set (markCached p bases pending)"
proof (induction bases arbitrary: pending)
  case Nil
  then show ?case by simp
next
  case (Cons bm bases)
  let ?next = "if p \<in> cachedPaths (snd bm) then setAdd (fst bm) pending else pending"
  have c: "markCached p (bm # bases) pending = markCached p bases ?next"
    by (simp only: markCached_def foldl_Cons)
  show ?case
  proof (cases "bm = (q, m)")
    case True
    have "q \<in> set (setAdd q pending)" by (simp add: setAdd_def)
    then have "q \<in> set ?next" using True Cons.prems(2) by simp
    then show ?thesis unfolding c using markCached_grows by blast
  next
    case False
    with Cons.prems have "(q, m) \<in> set bases" by simp
    from Cons.IH[OF this Cons.prems(2)] show ?thesis unfolding c .
  qed
qed

lemma scheduleEvaluation_pending [simp]:
  "pendingEvaluations (scheduleEvaluation now w) = pendingEvaluations w"
  by (simp add: scheduleEvaluation_def armTimer_def clearTimeout_def Let_def split: option.splits)

lemma evaluatePendingBases_dispatched:
  assumes "registryOk w"
  shows "\<exists>ds. dispatched (evaluatePendingBases host clock w) = dispatched w @ ds \<and>
               (\<forall>n \<in> set ds. baseFilePath_of n \<in> set (filter (isDue clock w) (pendingEvaluations w)))"
proof (cases "pendingEvaluations w = []")
  case True
  then show ?thesis by (simp add: evaluatePendingBases_unfold)
next
  case False
  let ?w0 = "w\<lparr>passes := passes w @ [pendingEvaluations w], pendingEvaluations := []\<rparr>"
  have due: "isDue clock ?w0 = isDue clock w"
    by (rule ext) (simp add: isDue_def)
  have ok0: "registryOk ?w0" using assms by (simp add: registryOk_def)
  from foldl_evaluateOne_dispatched[OF ok0, of host clock "pendingEvaluations w"] False
  show ?thesis by (auto simp: evaluatePendingBases_unfold due)
qed

lemma pass_skips_snoozed:
  assumes reg: "map_of (monitoredBases w) q = Some m"
      and sn: "clock q < snoozedUntil m" and ok: "registryOk w"
  shows "map_of (monitoredBases (evaluatePendingBases host clock w)) q = Some m"
    and "\<exists>es. evaluated (evaluatePendingBases host clock w) = evaluated w @ es \<and> q \<notin> set es"
    and "\<exists>ds. dispatched (evaluatePendingBases host clock w) = dispatched w @ ds \<and>
               (\<forall>n \<in> set ds. baseFilePath_of n \<noteq> q)"
proof -
  have nd: "\<not> isDue clock w q" using sn reg by (simp add: isDue_def)
  show "map_of (monitoredBases (evaluatePendingBases host clock w)) q = Some m"
    using reg sn
    by (simp add: evaluatePendingBases_lookup afterEvaluation_def)
  have "evaluated (evaluatePendingBases host clock w)
          = evaluated w @ filter (isDue clock w) (pendingEvaluations w)"
    by (rule evaluatePendingBases_evaluated)
  moreover have "q \<notin> set (filter (isDue clock w) (pendingEvaluations w))" using nd by simp
  ultimately show "\<exists>es. evaluated (evaluatePendingBases host clock w) = evaluated w @ es \<and> q \<notin> set es"
    by blast
  from evaluatePendingBases_dispatched[OF ok, of host clock] obtain ds where
    1: "dispatched (evaluatePendingBases host clock w) = dispatched w @ ds"
    and 2: "\<forall>n \<in> set ds. baseFilePath_of n \<in> set (filter (isDue clock w) (pendingEvaluations w))"
    by blast
  have "\<forall>n \<in> set ds. baseFilePath_of n \<noteq> q" using 2 nd by auto
  with 1 show "\<exists>ds. dispatched (evaluatePendingBases host clock w) = dispatched w @ ds \<and>
                   (\<forall>n \<in> set ds. baseFilePath_of n \<noteq> q)" by blast
qed

lemma snoozeBase_sets:
  assumes "map_of (monitoredBases w) q = Some m"
  shows "map_of (monitoredBases (snoozeBase now q durationMinutes w)) q
           = Some (m\<lparr>snoozedUntil := now + durationMinutes * 60 * 1000\<rparr>)"
    and "dispatched (snoozeBase now q durationMinutes w) = dispatched w"
    and "registryOk w \<Longrightarrow> registryOk (snoozeBase now q durationMinutes w)"
proof -
  show "map_of (monitoredBases (snoozeBase now q durationMinutes w)) q
           = Some (m\<lparr>snoozedUntil := now + durationMinutes * 60 * 1000\<rparr>)"
    using assms by (simp add: snoozeBase_def update_conv')
  show "dispatched (snoozeBase now q durationMinutes w) = dispatched w"
    using assms by (simp add: snoozeBase_def)
  assume ok: "registryOk w"
  have "mb_path m = q" using registryOk_lookup[OF ok assms] .
  then show "registryOk (snoozeBase now q durationMinutes w)"
    using ok assms by (simp add: snoozeBase_def registryOk_def list_all_update)
qed

text \<open>
  Claim C7: \<open>snoozeBase\<close> sets \<open>snoozedUntil\<close> of a registered query to now plus the
  duration in milliseconds, and a pass whose clock is before that time opens no
  notification for the query. In general, while the clock is before \<open>snoozedUntil\<close>, an
  evaluation pass leaves the record of the query as it is, does not hand the query to the
  evaluation and opens no notification for it, and a push from an open view opens none
  either; a change event on a path of its cached set still puts the query into the pending
  set.
\<close>

theorem snoozed_query_is_skipped:
  assumes "map_of (monitoredBases w) q = Some m"
  shows "map_of (monitoredBases (snoozeBase now q durationMinutes w)) q
           = Some (m\<lparr>snoozedUntil := now + durationMinutes * 60 * 1000\<rparr>) \<and>
         (passTime q < now + durationMinutes * 60 * 1000 \<and> registryOk w \<longrightarrow>
            (\<exists>ds. dispatched (evaluatePendingBases host passTime (snoozeBase now q durationMinutes w))
                     = dispatched w @ ds \<and>
                   (\<forall>n \<in> set ds. baseFilePath_of n \<noteq> q))) \<and>
         (clock q < snoozedUntil m \<and> registryOk w \<longrightarrow>
            map_of (monitoredBases (evaluatePendingBases host clock w)) q = Some m \<and>
            (\<exists>es. evaluated (evaluatePendingBases host clock w) = evaluated w @ es \<and> q \<notin> set es) \<and>
            (\<exists>ds. dispatched (evaluatePendingBases host clock w) = dispatched w @ ds \<and>
                   (\<forall>n \<in> set ds. baseFilePath_of n \<noteq> q))) \<and>
         (pushTime < snoozedUntil m \<longrightarrow>
            dispatched (showNotificationFromView pushTime q baseName items w) = dispatched w) \<and>
         (changedPath \<in> cachedPaths m \<longrightarrow>
            q \<in> set (pendingEvaluations (handlePathChange changeTime changedPath w)))"
proof (intro conjI impI)
  show "map_of (monitoredBases (snoozeBase now q durationMinutes w)) q
           = Some (m\<lparr>snoozedUntil := now + durationMinutes * 60 * 1000\<rparr>)"
    using assms by (rule snoozeBase_sets(1))
next
  assume a: "passTime q < now + durationMinutes * 60 * 1000 \<and> registryOk w"
  let ?ws = "snoozeBase now q durationMinutes w"
  let ?ms = "m\<lparr>snoozedUntil := now + durationMinutes * 60 * 1000\<rparr>"
  have reg: "map_of (monitoredBases ?ws) q = Some ?ms" using assms by (rule snoozeBase_sets(1))
  have sn: "passTime q < snoozedUntil ?ms" using a by simp
  have ok: "registryOk ?ws" using snoozeBase_sets(3)[OF assms] a by blast
  from pass_skips_snoozed(3)[where clock = passTime and host = host, OF reg sn ok]
  show "\<exists>ds. dispatched (evaluatePendingBases host passTime ?ws) = dispatched w @ ds \<and>
                   (\<forall>n \<in> set ds. baseFilePath_of n \<noteq> q)"
    by (simp add: snoozeBase_sets(2)[OF assms])
next
  assume a: "clock q < snoozedUntil m \<and> registryOk w"
  then have sn: "clock q < snoozedUntil m" and ok: "registryOk w" by simp_all
  show "map_of (monitoredBases (evaluatePendingBases host clock w)) q = Some m"
    by (rule pass_skips_snoozed(1)[where clock = clock, OF assms sn ok])
  show "\<exists>es. evaluated (evaluatePendingBases host clock w) = evaluated w @ es \<and> q \<notin> set es"
    by (rule pass_skips_snoozed(2)[where clock = clock, OF assms sn ok])
  show "\<exists>ds. dispatched (evaluatePendingBases host clock w) = dispatched w @ ds \<and>
                   (\<forall>n \<in> set ds. baseFilePath_of n \<noteq> q)"
    by (rule pass_skips_snoozed(3)[where clock = clock, OF assms sn ok])
next
  assume "pushTime < snoozedUntil m"
  then show "dispatched (showNotificationFromView pushTime q baseName items w) = dispatched w"
    using assms by (simp add: showNotificationFromView_def Let_def)
next
  assume c: "changedPath \<in> cachedPaths m"
  have "(q, m) \<in> set (monitoredBases w)" using assms by (rule map_of_SomeD)
  from markCached_marks[OF this c]
  have "q \<in> set (markCached changedPath (monitoredBases w) (pendingEvaluations w))" .
  then have "q \<in> set (markNotSnoozed changeTime (monitoredBases w)
      (markCached changedPath (monitoredBases w) (pendingEvaluations w)))"
    using markNotSnoozed_grows by blast
  then show "q \<in> set (pendingEvaluations (handlePathChange changeTime changedPath w))"
    by (simp add: handlePathChange_def)
qed

lemma sample_registryOk: "registryOk sampleWatcher"
  by (simp add: registryOk_def sampleWatcher_def emptyWatcher_def sampleBase_def)

theorem snoozed_query_is_skipped_witness:
  "map_of (monitoredBases (snoozeBase 1000 ''q1.base'' 15 sampleWatcher)) ''q1.base''
     = Some (sampleBase ''q1.base'' 901000 {''Docs/old.md''}) \<and>
   (\<exists>ds. dispatched (evaluatePendingBases sampleWatcherHost (\<lambda>p. 2000)
                        (snoozeBase 1000 ''q1.base'' 15 sampleWatcher))
           = dispatched sampleWatcher @ ds \<and>
         (\<forall>n \<in> set ds. baseFilePath_of n \<noteq> ''q1.base'')) \<and>
   map_of (monitoredBases (evaluatePendingBases sampleWatcherHost (\<lambda>p. 2000) sampleWatcher))
     ''q4.base'' = Some (sampleBase ''q4.base'' 900000 {''Docs/a.md''}) \<and>
   (\<exists>ds. dispatched (evaluatePendingBases sampleWatcherHost (\<lambda>p. 2000) sampleWatcher)
           = dispatched sampleWatcher @ ds \<and>
         (\<forall>n \<in> set ds. baseFilePath_of n \<noteq> ''q4.base'')) \<and>
   dispatched (showNotificationFromView 2000 ''q4.base'' ''q4'' [sampleNote ''Docs/a.md''] sampleWatcher)
     = dispatched sampleWatcher \<and>
   ''q4.base'' \<in> set (pendingEvaluations (handlePathChange 2000 ''Docs/a.md'' sampleWatcher))"
  using snoozed_query_is_skipped[OF sample_registry(1),
          where now = 1000 and durationMinutes = 15 and passTime = "\<lambda>p. 2000"
            and host = sampleWatcherHost]
        snoozed_query_is_skipped[OF sample_registry(4),
          where clock = "\<lambda>p. 2000"
            and host = sampleWatcherHost and pushTime = 2000 and baseName = "''q4''"
            and items = "[sampleNote ''Docs/a.md'']" and changedPath = "''Docs/a.md''"
            and changeTime = 2000]
        sample_registryOk
  by (simp add: sampleBase_def)

lemma checkAndRegisterBase_frame [simp]:
  "timers (checkAndRegisterBase host file w) = timers w"
  "pendingEvaluations (checkAndRegisterBase host file w) = pendingEvaluations w"
  "passes (checkAndRegisterBase host file w) = passes w"
  "evaluationDebounceTimer (checkAndRegisterBase host file w) = evaluationDebounceTimer w"
  by (simp_all add: checkAndRegisterBase_def Let_def split: option.splits)

lemma foldl_checkAndRegisterBase_frame:
  "timers (foldl (\<lambda>w file. checkAndRegisterBase host file w) w files) = timers w \<and>
   pendingEvaluations (foldl (\<lambda>w file. checkAndRegisterBase host file w) w files)
     = pendingEvaluations w \<and>
   passes (foldl (\<lambda>w file. checkAndRegisterBase host file w) w files) = passes w \<and>
   evaluationDebounceTimer (foldl (\<lambda>w file. checkAndRegisterBase host file w) w files)
     = evaluationDebounceTimer w"
  by (induction files arbitrary: w) simp_all

lemma scanForMonitoredBases_frame [simp]:
  "timers (scanForMonitoredBases host w) = timers w"
  "pendingEvaluations (scanForMonitoredBases host w) = pendingEvaluations w"
  "passes (scanForMonitoredBases host w) = passes w"
  "evaluationDebounceTimer (scanForMonitoredBases host w) = evaluationDebounceTimer w"
  by (simp_all add: scanForMonitoredBases_def foldl_checkAndRegisterBase_frame)

lemma setupEventListeners_timers [simp]:
  "timers (setupEventListeners w) = timers w"
  by (simp add: setupEventListeners_def subscribe_def Let_def)

lemma periodicCallback_frame:
  "timers (periodicCallback host now w) = timers w"
  "evaluationDebounceTimer (periodicCallback host now w) = evaluationDebounceTimer w"
  "passes (periodicCallback host now w)
     = passes w @
       (if markNotSnoozed now (monitoredBases (scanForMonitoredBases host w)) (pendingEvaluations w) = []
        then []
        else [markNotSnoozed now (monitoredBases (scanForMonitoredBases host w))
                (pendingEvaluations w)])"
  by (simp_all add: periodicCallback_def Let_def evaluatePendingBases_frame)

lemma triggerEvaluation_frame:
  "timers (triggerEvaluation host clock q w) = timers w"
  "evaluationDebounceTimer (triggerEvaluation host clock q w) = evaluationDebounceTimer w"
  "passes (triggerEvaluation host clock q w) = passes w @ [setAdd q (pendingEvaluations w)]"
  by (auto simp: triggerEvaluation_def evaluatePendingBases_frame setAdd_def)

lemma debounceCallback_frame:
  "timers (debounceCallback host now w) = timers w"
  "evaluationDebounceTimer (debounceCallback host now w) = None"
  "passes (debounceCallback host now w)
     = passes w @ (if pendingEvaluations w = [] then [] else [pendingEvaluations w])"
  "pendingEvaluations (debounceCallback host now w) = []"
  by (simp_all add: debounceCallback_def evaluatePendingBases_frame)

lemma earliest_None: "earliest tms = None \<longleftrightarrow> tms = []"
  by (induction tms) (auto split: option.splits)

lemma earliest_mem: "earliest tms = Some tm \<Longrightarrow> tm \<in> set tms"
  by (induction tms arbitrary: tm) (auto split: option.splits if_splits)

lemma nextDue_None: "nextDue t tms = None \<longleftrightarrow> filter (\<lambda>tm. due tm \<le> t) tms = []"
  by (simp add: nextDue_def earliest_None)

lemma nextDue_mem: "nextDue t tms = Some tm \<Longrightarrow> tm \<in> set tms \<and> due tm \<le> t"
  using earliest_mem[of "filter (\<lambda>tm. due tm \<le> t) tms" tm] by (simp add: nextDue_def)

lemma fireDue_rest: "nextDue t (timers w) = None \<Longrightarrow> fireDue n host t w = w"
  by (cases n) simp_all

lemma firings_pos: "due tm \<le> t \<Longrightarrow> 0 < firings t tm"
  by (simp add: firings_def split: timer_kind.splits)

lemma sum_list_mem_le: "x \<in> set xs \<Longrightarrow> f x \<le> sum_list (map f xs)" for f :: "'a \<Rightarrow> nat"
  by (induction xs) auto

lemma settle_none:
  "filter (\<lambda>tm. due tm \<le> t) (timers w) = [] \<Longrightarrow> settle host t w = w"
  by (simp add: settle_def fireDue_rest nextDue_None)

lemma settle_one:
  assumes one: "filter (\<lambda>u. due u \<le> t) (timers w) = [tm]"
      and rest: "filter (\<lambda>u. due u \<le> t) (timers (fireTimer host tm w)) = []"
  shows "settle host t w = fireTimer host tm w"
proof -
  have "tm \<in> set (filter (\<lambda>u. due u \<le> t) (timers w))" by (simp add: one)
  then have mem: "tm \<in> set (timers w)" and d: "due tm \<le> t" by simp_all
  have "0 < sum_list (map (firings t) (timers w))"
    using firings_pos[OF d] sum_list_mem_le[OF mem, of "firings t"] by simp
  then obtain k where k: "sum_list (map (firings t) (timers w)) = Suc k"
    by (cases "sum_list (map (firings t) (timers w))") simp_all
  have n: "nextDue t (timers w) = Some tm" by (simp add: nextDue_def one)
  have "settle host t w = fireDue k host t (fireTimer host tm w)"
    by (simp add: settle_def k n)
  also have "\<dots> = fireTimer host tm w"
    by (rule fireDue_rest) (simp add: nextDue_None rest)
  finally show ?thesis .
qed

lemma debounceTimers_clearTimeout:
  "debounceTimers (clearTimeout h w) = filter (\<lambda>tm. tid tm \<noteq> h) (debounceTimers w)"
  unfolding debounceTimers_def clearTimeout_def by (auto intro!: filter_cong)

lemma othersRest_due:
  assumes "othersRestUntil tEnd w" and "t \<le> tEnd"
  shows "filter (\<lambda>tm. due tm \<le> t) (timers w) = filter (\<lambda>tm. due tm \<le> t) (debounceTimers w)"
proof -
  have "filter (\<lambda>tm. due tm \<le> t) (timers w)
      = filter (\<lambda>tm. kind tm = Debounce \<and> due tm \<le> t) (timers w)"
    using assms by (auto simp: othersRestUntil_def list_all_iff intro!: filter_cong)
  then show ?thesis by (simp add: debounceTimers_def conj_commute)
qed

lemma othersRest_filter:
  "othersRestUntil tEnd w \<Longrightarrow> othersRestUntil tEnd (w\<lparr>timers := filter P (timers w)\<rparr>)"
  by (simp add: othersRestUntil_def list_all_iff)

lemma scheduleEvaluation_arms:
  assumes "quiet w \<or> armed t0 w"
  shows "armed t (scheduleEvaluation t w) \<and> passes (scheduleEvaluation t w) = passes w \<and>
         monitoredBases (scheduleEvaluation t w) = monitoredBases w \<and>
         (othersRestUntil tEnd w \<longrightarrow> othersRestUntil tEnd (scheduleEvaluation t w))"
proof -
  define w1 where
    "w1 = (case evaluationDebounceTimer w of Some h \<Rightarrow> clearTimeout h w | None \<Rightarrow> w)"
  have d1: "debounceTimers w1 = []"
  proof (cases "quiet w")
    case True
    then show ?thesis by (simp add: w1_def quiet_def)
  next
    case False
    with assms obtain h where h: "evaluationDebounceTimer w = Some h"
      "debounceTimers w = [\<lparr>tid = h, kind = Debounce, due = t0 + EVALUATION_DEBOUNCE_MS\<rparr>]"
      by (auto simp: armed_def)
    have "debounceTimers w1 = filter (\<lambda>tm. tid tm \<noteq> h) (debounceTimers w)"
      by (simp add: w1_def h(1) debounceTimers_clearTimeout)
    then show ?thesis using h(2) by simp
  qed
  have p1: "passes w1 = passes w" "monitoredBases w1 = monitoredBases w"
    by (simp_all add: w1_def clearTimeout_def split: option.splits)
  have o1: "othersRestUntil tEnd w1" if "othersRestUntil tEnd w"
    using that by (auto simp: w1_def clearTimeout_def othersRestUntil_def list_all_iff split: option.splits)
  have "scheduleEvaluation t w =
      (snd (armTimer Debounce EVALUATION_DEBOUNCE_MS t w1))
        \<lparr>evaluationDebounceTimer := Some (fst (armTimer Debounce EVALUATION_DEBOUNCE_MS t w1))\<rparr>"
    by (simp add: scheduleEvaluation_def w1_def Let_def split_beta)
  then show ?thesis
    using d1 p1 o1
    by (simp add: armed_def debounceTimers_def armTimer_def Let_def othersRestUntil_def)
qed

lemma handlePathChange_arms:
  assumes "quiet w \<or> armed t0 w"
  shows "armed t (handlePathChange t p w) \<and> passes (handlePathChange t p w) = passes w \<and>
         monitoredBases (handlePathChange t p w) = monitoredBases w \<and>
         (othersRestUntil tEnd w \<longrightarrow> othersRestUntil tEnd (handlePathChange t p w))"
proof -
  let ?w = "w\<lparr>pendingEvaluations :=
            markNotSnoozed t (monitoredBases w)
              (markCached p (monitoredBases w) (pendingEvaluations w))\<rparr>"
  have "quiet ?w \<or> armed t0 ?w"
    using assms by (simp add: quiet_def armed_def debounceTimers_def)
  from scheduleEvaluation_arms[OF this, of t tEnd] show ?thesis
    by (simp add: handlePathChange_def othersRestUntil_def)
qed

lemma handlePathChange_pending:
  "pendingEvaluations (handlePathChange t p w)
     = markNotSnoozed t (monitoredBases w) (markCached p (monitoredBases w) (pendingEvaluations w))"
  by (simp add: handlePathChange_def)

lemma setAdd_nonempty: "setAdd x pending \<noteq> []"
  by (auto simp: setAdd_def)

lemma markNotSnoozed_marks:
  "list_ex (\<lambda>bm. snoozedUntil (snd bm) \<le> t) bases \<or> pending \<noteq> []
     \<Longrightarrow> markNotSnoozed t bases pending \<noteq> []"
proof (induction bases arbitrary: pending)
  case Nil
  then show ?case by (simp add: markNotSnoozed_def)
next
  case (Cons bm bases)
  let ?next = "if snoozedUntil (snd bm) \<le> t then setAdd (fst bm) pending else pending"
  have c: "markNotSnoozed t (bm # bases) pending = markNotSnoozed t bases ?next"
    by (simp only: markNotSnoozed_def foldl_Cons)
  have "list_ex (\<lambda>bm. snoozedUntil (snd bm) \<le> t) bases \<or> ?next \<noteq> []"
    using Cons.prems by (auto simp: setAdd_nonempty)
  from Cons.IH[OF this] show ?case unfolding c .
qed

lemma handlePathChange_marks:
  "someQueryAwake t w \<Longrightarrow> pendingEvaluations (handlePathChange t p w) \<noteq> []"
  by (simp add: handlePathChange_pending someQueryAwake_def markNotSnoozed_marks)

lemma handlePathChange_grows:
  "set (pendingEvaluations w) \<subseteq> set (pendingEvaluations (handlePathChange t p w))"
  unfolding handlePathChange_pending
  by (rule subset_trans[OF markCached_grows markNotSnoozed_grows])

lemma update_awake:
  "map_of xs p = Some m \<Longrightarrow> snoozedUntil m' = snoozedUntil m \<Longrightarrow>
   list_ex (\<lambda>bm. snoozedUntil (snd bm) \<le> t) (AList.update p m' xs)
     = list_ex (\<lambda>bm. snoozedUntil (snd bm) \<le> t) xs"
  by (induction xs) (auto split: if_splits)

lemma evaluateOne_awake:
  "someQueryAwake t (evaluateOne host clock w p) = someQueryAwake t w"
proof (cases "map_of (monitoredBases w) p")
  case None
  then show ?thesis by (simp add: someQueryAwake_def evaluateOne_registry)
next
  case (Some m)
  then show ?thesis
    by (simp add: someQueryAwake_def evaluateOne_registry update_awake)
qed

lemma foldl_evaluateOne_awake:
  "someQueryAwake t (foldl (evaluateOne host clock) w ps) = someQueryAwake t w"
  by (induction ps arbitrary: w) (simp_all add: evaluateOne_awake)

lemma evaluatePendingBases_awake:
  "someQueryAwake t (evaluatePendingBases host clock w) = someQueryAwake t w"
proof -
  have "someQueryAwake t
      (w\<lparr>passes := passes w @ [pendingEvaluations w], pendingEvaluations := []\<rparr>)
      = someQueryAwake t w" by (simp add: someQueryAwake_def)
  then show ?thesis by (simp add: evaluatePendingBases_unfold foldl_evaluateOne_awake)
qed

lemma someQueryAwake_mono: "someQueryAwake t w \<Longrightarrow> t \<le> t' \<Longrightarrow> someQueryAwake t' w"
  unfolding someQueryAwake_def list_ex_iff by (meson order_trans)

lemma settle_quiet:
  assumes "quiet w" and "othersRestUntil tEnd w" and "t \<le> tEnd"
  shows "settle host t w = w"
proof -
  have "filter (\<lambda>tm. due tm \<le> t) (timers w) = []"
    using assms by (simp add: othersRest_due quiet_def)
  then show ?thesis by (rule settle_none)
qed

lemma settle_early:
  assumes "armed t0 w" and "t < t0 + EVALUATION_DEBOUNCE_MS"
      and "othersRestUntil tEnd w" and "t \<le> tEnd"
  shows "settle host t w = w"
proof -
  from assms(1) obtain h where
    "debounceTimers w = [\<lparr>tid = h, kind = Debounce, due = t0 + EVALUATION_DEBOUNCE_MS\<rparr>]"
    by (auto simp: armed_def)
  then have "filter (\<lambda>tm. due tm \<le> t) (timers w) = []"
    using assms(2) by (simp add: othersRest_due[OF assms(3,4)])
  then show ?thesis by (rule settle_none)
qed

lemma settle_fires:
  assumes "armed t0 w" and "t0 + EVALUATION_DEBOUNCE_MS \<le> t"
      and "othersRestUntil tEnd w" and "t \<le> tEnd"
  shows "quiet (settle host t w) \<and>
         passes (settle host t w)
           = passes w @ (if pendingEvaluations w = [] then [] else [pendingEvaluations w]) \<and>
         pendingEvaluations (settle host t w) = [] \<and>
         othersRestUntil tEnd (settle host t w) \<and>
         (\<forall>s. someQueryAwake s (settle host t w) = someQueryAwake s w)"
proof -
  from assms(1) obtain h where h: "evaluationDebounceTimer w = Some h"
    and d: "debounceTimers w = [\<lparr>tid = h, kind = Debounce, due = t0 + EVALUATION_DEBOUNCE_MS\<rparr>]"
    by (auto simp: armed_def)
  let ?tm = "\<lparr>tid = h, kind = Debounce, due = t0 + EVALUATION_DEBOUNCE_MS\<rparr>"
  let ?w1 = "w\<lparr>timers := filter (\<lambda>u. tid u \<noteq> h) (timers w)\<rparr>"
  have f: "fireTimer host ?tm w = debounceCallback host (t0 + EVALUATION_DEBOUNCE_MS) ?w1"
    by (simp add: fireTimer_def)
  have "debounceTimers ?w1 = filter (\<lambda>tm. tid tm \<noteq> h) (debounceTimers w)"
    using debounceTimers_clearTimeout[of h w] by (simp add: clearTimeout_def)
  then have d1: "debounceTimers ?w1 = []" using d by simp
  have o1: "othersRestUntil tEnd ?w1" using assms(3) by (rule othersRest_filter)
  have tf: "timers (fireTimer host ?tm w) = timers ?w1"
    by (simp add: f debounceCallback_frame)
  have of: "othersRestUntil tEnd (fireTimer host ?tm w)"
    using o1 by (simp add: othersRestUntil_def tf)
  have df: "debounceTimers (fireTimer host ?tm w) = []"
    using d1 by (simp add: debounceTimers_def tf)
  have one: "filter (\<lambda>u. due u \<le> t) (timers w) = [?tm]"
    using assms(2) d by (simp add: othersRest_due[OF assms(3,4)])
  have rest: "filter (\<lambda>u. due u \<le> t) (timers (fireTimer host ?tm w)) = []"
    using df by (simp add: othersRest_due[OF of assms(4)])
  have s: "settle host t w = fireTimer host ?tm w" using one rest by (rule settle_one)
  have q: "quiet (fireTimer host ?tm w)"
    using df by (simp add: quiet_def f debounceCallback_frame)
  have p: "passes (fireTimer host ?tm w)
      = passes w @ (if pendingEvaluations w = [] then [] else [pendingEvaluations w])"
    by (simp add: f debounceCallback_frame)
  have e: "pendingEvaluations (fireTimer host ?tm w) = []"
    by (simp add: f debounceCallback_frame)
  have a: "someQueryAwake s (fireTimer host ?tm w) = someQueryAwake s w" for s
  proof -
    have "someQueryAwake s (?w1\<lparr>evaluationDebounceTimer := None\<rparr>) = someQueryAwake s w"
      by (simp add: someQueryAwake_def)
    then show ?thesis by (simp add: f debounceCallback_def evaluatePendingBases_awake)
  qed
  from q p e of a show ?thesis by (simp add: s)
qed

lemma delay_nonneg: "0 \<le> EVALUATION_DEBOUNCE_MS"
  by (simp add: EVALUATION_DEBOUNCE_MS_def)

lemma burst_last:
  "withinDebounceWindow ((t0, p0) # es) \<Longrightarrow> t0 \<le> fst (last ((t0, p0) # es))"
proof (induction es arbitrary: t0 p0)
  case Nil
  then show ?case by simp
next
  case (Cons e es)
  obtain t1 p1 where e: "e = (t1, p1)" by (cases e)
  from Cons.prems have "t0 \<le> t1" and "withinDebounceWindow ((t1, p1) # es)" by (simp_all add: e)
  with Cons.IH[of t1 p1] show ?case by (simp add: e)
qed

lemma spaced_last:
  "separatedByMoreThanDelay ((t0, p0) # es) \<Longrightarrow> t0 \<le> fst (last ((t0, p0) # es))"
proof (induction es arbitrary: t0 p0)
  case Nil
  then show ?case by simp
next
  case (Cons e es)
  obtain t1 p1 where e: "e = (t1, p1)" by (cases e)
  from Cons.prems have "t0 \<le> t1" and "separatedByMoreThanDelay ((t1, p1) # es)"
    using delay_nonneg by (simp_all add: e)
  with Cons.IH[of t1 p1] show ?case by (simp add: e)
qed

lemma run_burst:
  assumes "armed t0 w" and "withinDebounceWindow ((t0, p0) # es)"
      and "othersRestUntil tEnd w" and "fst (last ((t0, p0) # es)) \<le> tEnd"
  shows "armed (fst (last ((t0, p0) # es))) (runChanges host es w) \<and>
         passes (runChanges host es w) = passes w \<and>
         othersRestUntil tEnd (runChanges host es w) \<and>
         set (pendingEvaluations w) \<subseteq> set (pendingEvaluations (runChanges host es w))"
  using assms
proof (induction es arbitrary: t0 p0 w)
  case Nil
  then show ?case by simp
next
  case (Cons e es)
  obtain t1 p1 where e: "e = (t1, p1)" by (cases e)
  from Cons.prems(2) have gap: "t1 - t0 < EVALUATION_DEBOUNCE_MS"
    and rest: "withinDebounceWindow ((t1, p1) # es)" by (simp_all add: e)
  have fin: "fst (last ((t1, p1) # es)) \<le> tEnd" using Cons.prems(4) by (simp add: e)
  have t1: "t1 \<le> tEnd" using burst_last[OF rest] fin by simp
  have s: "settle host t1 w = w"
    using settle_early[OF Cons.prems(1) _ Cons.prems(3) t1] gap by simp
  from handlePathChange_arms[of w t0 t1 p1 tEnd] Cons.prems(1,3)
  have a: "armed t1 (handlePathChange t1 p1 w)"
    and p: "passes (handlePathChange t1 p1 w) = passes w"
    and o: "othersRestUntil tEnd (handlePathChange t1 p1 w)" by simp_all
  from Cons.IH[OF a rest o fin] handlePathChange_grows[of w t1 p1]
  show ?case by (auto simp: e s p)
qed

lemma run_spaced:
  assumes "armed t0 w" and "separatedByMoreThanDelay ((t0, p0) # es)"
      and "othersRestUntil tEnd w" and "fst (last ((t0, p0) # es)) \<le> tEnd"
  shows "armed (fst (last ((t0, p0) # es))) (runChanges host es w) \<and>
         othersRestUntil tEnd (runChanges host es w) \<and>
         length (passes (runChanges host es w)) \<le> length (passes w) + length es \<and>
         (someQueryAwake t0 w \<and> pendingEvaluations w \<noteq> [] \<longrightarrow>
            length (passes (runChanges host es w)) = length (passes w) + length es \<and>
            pendingEvaluations (runChanges host es w) \<noteq> [])"
  using assms
proof (induction es arbitrary: t0 p0 w)
  case Nil
  then show ?case by simp
next
  case (Cons e es)
  obtain t1 p1 where e: "e = (t1, p1)" by (cases e)
  from Cons.prems(2) have gap: "t1 - t0 > EVALUATION_DEBOUNCE_MS"
    and rest: "separatedByMoreThanDelay ((t1, p1) # es)" by (simp_all add: e)
  have fin: "fst (last ((t1, p1) # es)) \<le> tEnd" using Cons.prems(4) by (simp add: e)
  have t1: "t1 \<le> tEnd" using spaced_last[OF rest] fin by simp
  have due: "t0 + EVALUATION_DEBOUNCE_MS \<le> t1" using gap by simp
  have t01: "t0 \<le> t1" using gap delay_nonneg by simp
  let ?v = "settle host t1 w"
  let ?w' = "handlePathChange t1 p1 ?v"
  from settle_fires[OF Cons.prems(1) due Cons.prems(3) t1, of host]
  have q: "quiet ?v"
    and n: "passes ?v = passes w @ (if pendingEvaluations w = [] then [] else [pendingEvaluations w])"
    and o: "othersRestUntil tEnd ?v"
    and aw: "\<And>s. someQueryAwake s ?v = someQueryAwake s w" by simp_all
  from handlePathChange_arms[of ?v t0 t1 p1 tEnd] q o
  have a: "armed t1 ?w'" and p: "passes ?w' = passes ?v"
    and m: "monitoredBases ?w' = monitoredBases ?v"
    and o': "othersRestUntil tEnd ?w'" by simp_all
  have aw': "someQueryAwake s ?w' = someQueryAwake s w" for s
    using aw[of s] m by (simp add: someQueryAwake_def)
  note ih = Cons.IH[OF a rest o' fin]
  have le: "length (passes ?w') \<le> length (passes w) + 1" by (simp add: p n)
  have 1: "length (passes (runChanges host (e # es) w)) \<le> length (passes w) + length (e # es)"
    using ih le by (simp add: e)
  have 2: "length (passes (runChanges host (e # es) w)) = length (passes w) + length (e # es) \<and>
      pendingEvaluations (runChanges host (e # es) w) \<noteq> []"
    if h: "someQueryAwake t0 w \<and> pendingEvaluations w \<noteq> []"
  proof -
    have eq: "length (passes ?w') = length (passes w) + 1" using h by (simp add: p n)
    have "someQueryAwake t1 w" using h t01 someQueryAwake_mono by blast
    then have a1: "someQueryAwake t1 ?v" and a2: "someQueryAwake t1 ?w'"
      by (simp_all add: aw aw')
    have "pendingEvaluations ?w' \<noteq> []" using a1 by (rule handlePathChange_marks)
    with ih a2 eq show ?thesis by (simp add: e)
  qed
  from ih 1 2 show ?case by (simp add: e)
qed

text \<open>Each firing takes one from the firings the table stands for, so the loop comes to rest.\<close>

lemma sum_filter_le: "sum_list (map f (filter P xs)) \<le> sum_list (map f xs)"
  for f :: "'a \<Rightarrow> nat"
  by (induction xs) auto

lemma sum_filter_less:
  "x \<in> set xs \<Longrightarrow> \<not> P x \<Longrightarrow> sum_list (map f (filter P xs)) + f x \<le> sum_list (map f xs)"
  for f :: "'a \<Rightarrow> nat"
proof (induction xs)
  case Nil
  then show ?case by simp
next
  case (Cons a xs)
  show ?case
  proof (cases "x = a")
    case True
    with Cons.prems(2) sum_filter_le[of f P xs] show ?thesis by simp
  next
    case False
    with Cons.prems have "x \<in> set xs" by simp
    from Cons.IH[OF this Cons.prems(2)] show ?thesis by simp
  qed
qed

lemma sum_map_less:
  "\<forall>y \<in> set xs. f (g y) \<le> f y \<Longrightarrow> x \<in> set xs \<Longrightarrow> f (g x) < f x \<Longrightarrow>
   sum_list (map f (map g xs)) < sum_list (map f xs)"
  for f :: "'a \<Rightarrow> nat"
proof (induction xs)
  case Nil
  then show ?case by simp
next
  case (Cons a xs)
  have le: "sum_list (map f (map g xs)) \<le> sum_list (map f xs)"
    using Cons.prems(1) by (simp add: sum_list_mono o_def)
  show ?case
  proof (cases "x = a")
    case True
    with Cons.prems(3) le show ?thesis by simp
  next
    case False
    with Cons.prems have "x \<in> set xs" by simp
    from Cons.IH[OF _ this Cons.prems(3)] Cons.prems(1) show ?thesis
      by (simp add: add_le_less_mono)
  qed
qed

lemma firings_shift:
  "firings t (u\<lparr>due := due u + PERIODIC_SCAN_INTERVAL_MS\<rparr>) \<le> firings t u"
  by (cases "kind u") (auto simp: firings_def PERIODIC_SCAN_INTERVAL_MS_def)

lemma firings_shift_periodic:
  "kind u = PeriodicScan \<Longrightarrow> due u \<le> t \<Longrightarrow>
   firings t (u\<lparr>due := due u + PERIODIC_SCAN_INTERVAL_MS\<rparr>) < firings t u"
  by (auto simp: firings_def PERIODIC_SCAN_INTERVAL_MS_def)

lemma firings_startup:
  "kind u = StartupScan \<Longrightarrow> due u \<le> t \<Longrightarrow>
   firings t \<lparr>tid = h, kind = PeriodicScan, due = due u + PERIODIC_SCAN_INTERVAL_MS\<rparr> < firings t u"
  by (auto simp: firings_def PERIODIC_SCAN_INTERVAL_MS_def)

lemma fireTimer_measure:
  assumes mem: "tm \<in> set (timers w)" and d: "due tm \<le> t"
  shows "sum_list (map (firings t) (timers (fireTimer host tm w)))
           < sum_list (map (firings t) (timers w))"
proof (cases "kind tm")
  case Debounce
  have "timers (fireTimer host tm w) = filter (\<lambda>u. tid u \<noteq> tid tm) (timers w)"
    by (simp add: fireTimer_def Debounce debounceCallback_frame)
  with sum_filter_less[OF mem, of "\<lambda>u. tid u \<noteq> tid tm" "firings t"] firings_pos[OF d]
  show ?thesis by simp
next
  case StartupScan
  have "\<exists>h. timers (fireTimer host tm w)
      = filter (\<lambda>u. tid u \<noteq> tid tm) (timers w)
        @ [\<lparr>tid = h, kind = PeriodicScan, due = due tm + PERIODIC_SCAN_INTERVAL_MS\<rparr>]"
    by (simp add: fireTimer_def StartupScan startupCallback_def startPeriodicScan_def
        armTimer_def Let_def)
  then obtain h where "timers (fireTimer host tm w)
      = filter (\<lambda>u. tid u \<noteq> tid tm) (timers w)
        @ [\<lparr>tid = h, kind = PeriodicScan, due = due tm + PERIODIC_SCAN_INTERVAL_MS\<rparr>]" by blast
  with sum_filter_less[OF mem, of "\<lambda>u. tid u \<noteq> tid tm" "firings t"]
    firings_startup[OF StartupScan d, of h]
  show ?thesis by simp
next
  case PeriodicScan
  let ?g = "\<lambda>u. if tid u = tid tm then u\<lparr>due := due u + PERIODIC_SCAN_INTERVAL_MS\<rparr> else u"
  have tf: "timers (fireTimer host tm w) = map ?g (timers w)"
    by (simp add: fireTimer_def PeriodicScan periodicCallback_frame)
  have 1: "\<forall>y \<in> set (timers w). firings t (?g y) \<le> firings t y"
    by (simp add: firings_shift)
  have 2: "firings t (?g tm) < firings t tm"
    using firings_shift_periodic[OF PeriodicScan d] by simp
  from sum_map_less[OF 1 mem 2] show ?thesis by (simp only: tf)
qed

lemma fireDue_complete:
  "sum_list (map (firings t) (timers w)) \<le> n \<Longrightarrow> nextDue t (timers (fireDue n host t w)) = None"
proof (induction n arbitrary: w)
  case 0
  then have "\<forall>tm \<in> set (timers w). firings t tm = 0" by simp
  then have "\<forall>tm \<in> set (timers w). \<not> due tm \<le> t" using firings_pos by fastforce
  then show ?case by (simp add: nextDue_None filter_empty_conv)
next
  case (Suc n)
  show ?case
  proof (cases "nextDue t (timers w)")
    case None
    then show ?thesis by simp
  next
    case (Some tm)
    from nextDue_mem[OF Some] have mem: "tm \<in> set (timers w)" and d: "due tm \<le> t" by simp_all
    from fireTimer_measure[OF mem d, of host] Suc.prems
    have "sum_list (map (firings t) (timers (fireTimer host tm w))) \<le> n" by simp
    from Suc.IH[OF this] Some show ?thesis by simp
  qed
qed

lemma settle_complete: "nextDue t (timers (settle host t w)) = None"
  by (simp add: settle_def fireDue_complete)

text \<open>
  Claim C6, as the specification states it, fails. A burst of two change events 200 ms
  apart gives two evaluation passes when the periodic rescan is due between them: the rescan
  marks the queries and runs a pass of its own, at once, and the debounce timer that the
  second event arms again runs the second. A burst gives no pass at all when no query is
  registered, since the timer then finds nothing pending. And not every mark goes through
  the timer: \<open>triggerEvaluation\<close> marks a query and runs a pass with no timer armed.
\<close>

theorem debounce_pass_count_differs:
  "passes (settle sampleWatcherHost 5000 (initialize 0 emptyWatcher)) = [] \<and>
   map kind (timers (settle sampleWatcherHost 5000 (initialize 0 emptyWatcher))) = [PeriodicScan] \<and>
   map due (timers (settle sampleWatcherHost 5000 (initialize 0 emptyWatcher))) = [305000] \<and>
   withinDebounceWindow [(304900, ''Docs/a.md''), (305100, ''Docs/b.md'')] \<and>
   length (passes (settle sampleWatcherHost 400000
      (runChanges sampleWatcherHost [(304900, ''Docs/a.md''), (305100, ''Docs/b.md'')]
         (settle sampleWatcherHost 5000 (initialize 0 emptyWatcher))))) = 2 \<and>
   withinDebounceWindow [(0, ''Docs/a.md''), (200, ''Docs/b.md'')] \<and>
   passes (settle sampleWatcherHost 5000
      (runChanges sampleWatcherHost [(0, ''Docs/a.md''), (200, ''Docs/b.md'')] emptyWatcher)) = [] \<and>
   timers (triggerEvaluation sampleWatcherHost (\<lambda>p. 2000) ''q1.base'' sampleWatcher) = [] \<and>
   length (passes (triggerEvaluation sampleWatcherHost (\<lambda>p. 2000) ''q1.base'' sampleWatcher)) = 1"
  by code_simp

text \<open>
  Claim C6, amended, for a run of change events that starts with no debounce timer armed
  and during which neither the startup timeout nor the periodic rescan is due. A mark made
  by a change event clears the debounce timer that is armed before it arms the new one, so
  after the run exactly one debounce timer is armed, due one delay after the last event. When
  every event follows the one before it by less than the delay, letting the time pass after
  the run gives at most one evaluation pass, on the pending set the whole run has gathered,
  and exactly one when some registered query is not snoozed at the first event. When every
  event follows by more than the delay, it gives at most one pass for each event, and exactly
  one for each when some registered query is not snoozed at the first event. Once the time
  has passed, no timer is left that is due. The marks made
  by \<open>triggerEvaluation\<close> and by the periodic rescan do not go through the timer: they leave
  the timers as they are and run their pass at once.
\<close>

theorem debounce_coalesces:
  assumes "evaluationDebounceTimer w = None" and "debounceTimers w = []" and "es \<noteq> []"
      and "othersRestUntil tEnd w"
      and "fst (last es) + EVALUATION_DEBOUNCE_MS \<le> tEnd"
  shows "(withinDebounceWindow es \<or> separatedByMoreThanDelay es \<longrightarrow>
            map due (debounceTimers (runChanges host es w))
              = [fst (last es) + EVALUATION_DEBOUNCE_MS]) \<and>
         (withinDebounceWindow es \<longrightarrow>
            passes (settle host tEnd (runChanges host es w))
              = passes w @ (if pendingEvaluations (runChanges host es w) = [] then []
                            else [pendingEvaluations (runChanges host es w)]) \<and>
            (someQueryAwake (fst (hd es)) w \<longrightarrow>
               length (passes (settle host tEnd (runChanges host es w))) = length (passes w) + 1)) \<and>
         (separatedByMoreThanDelay es \<longrightarrow>
            length (passes (settle host tEnd (runChanges host es w))) \<le> length (passes w) + length es \<and>
            (someQueryAwake (fst (hd es)) w \<longrightarrow>
               length (passes (settle host tEnd (runChanges host es w)))
                 = length (passes w) + length es)) \<and>
         nextDue tEnd (timers (settle host tEnd (runChanges host es w))) = None \<and>
         timers (triggerEvaluation host clock q v) = timers v \<and>
         passes (triggerEvaluation host clock q v) = passes v @ [setAdd q (pendingEvaluations v)] \<and>
         timers (periodicCallback host now v) = timers v \<and>
         length (passes (periodicCallback host now v)) \<le> length (passes v) + 1"
proof -
  from assms(3) obtain t1 p1 es' where es: "es = (t1, p1) # es'" by (cases es) auto
  have q: "quiet w" using assms(1,2) by (simp add: quiet_def)
  have lastle: "fst (last es) \<le> tEnd" using assms(5) delay_nonneg by simp
  let ?w1 = "handlePathChange t1 p1 w"
  let ?run = "runChanges host es w"
  have start: "?run = runChanges host es' ?w1 \<and> armed t1 ?w1 \<and> passes ?w1 = passes w \<and>
      othersRestUntil tEnd ?w1 \<and> monitoredBases ?w1 = monitoredBases w"
    if "t1 \<le> tEnd"
  proof -
    have s: "settle host t1 w = w" using settle_quiet[OF q assms(4) that] .
    from handlePathChange_arms[of w t1 t1 p1 tEnd] q assms(4) s show ?thesis by (simp add: es)
  qed
  have fire: "passes (settle host tEnd v)
        = passes v @ (if pendingEvaluations v = [] then [] else [pendingEvaluations v])"
    if "armed (fst (last es)) v" "othersRestUntil tEnd v" for v
    using settle_fires[OF that(1) assms(5) that(2), where host = host] by simp
  have burst: "armed (fst (last es)) ?run \<and>
      passes (settle host tEnd ?run)
        = passes w @ (if pendingEvaluations ?run = [] then [] else [pendingEvaluations ?run]) \<and>
      (someQueryAwake (fst (hd es)) w \<longrightarrow>
         length (passes (settle host tEnd ?run)) = length (passes w) + 1)"
    if b: "withinDebounceWindow es"
  proof -
    have t1: "t1 \<le> tEnd" using burst_last[of t1 p1 es'] b lastle by (simp add: es)
    note st = start[OF t1]
    from st have a: "armed t1 ?w1" and o: "othersRestUntil tEnd ?w1" by simp_all
    have b': "withinDebounceWindow ((t1, p1) # es')" using b by (simp add: es)
    have l': "fst (last ((t1, p1) # es')) \<le> tEnd" using lastle by (simp add: es)
    from run_burst[OF a b' o l', of host] st
    have ar: "armed (fst (last es)) ?run" and pr: "passes ?run = passes w"
      and orr: "othersRestUntil tEnd ?run"
      and gr: "set (pendingEvaluations ?w1) \<subseteq> set (pendingEvaluations ?run)"
      by (simp_all add: es)
    have f: "passes (settle host tEnd ?run)
        = passes w @ (if pendingEvaluations ?run = [] then [] else [pendingEvaluations ?run])"
      using fire[OF ar orr] pr by simp
    have "length (passes (settle host tEnd ?run)) = length (passes w) + 1"
      if "someQueryAwake (fst (hd es)) w"
    proof -
      have "pendingEvaluations ?w1 \<noteq> []"
        using handlePathChange_marks[of t1 w p1] that by (simp add: es)
      with gr have "pendingEvaluations ?run \<noteq> []" by auto
      with f show ?thesis by simp
    qed
    with ar f show ?thesis by blast
  qed
  have spaced: "armed (fst (last es)) ?run \<and>
      length (passes (settle host tEnd ?run)) \<le> length (passes w) + length es \<and>
      (someQueryAwake (fst (hd es)) w \<longrightarrow>
         length (passes (settle host tEnd ?run)) = length (passes w) + length es)"
    if b: "separatedByMoreThanDelay es"
  proof -
    have t1: "t1 \<le> tEnd" using spaced_last[of t1 p1 es'] b lastle by (simp add: es)
    note st = start[OF t1]
    from st have a: "armed t1 ?w1" and o: "othersRestUntil tEnd ?w1"
      and m: "monitoredBases ?w1 = monitoredBases w" by simp_all
    have b': "separatedByMoreThanDelay ((t1, p1) # es')" using b by (simp add: es)
    have l': "fst (last ((t1, p1) # es')) \<le> tEnd" using lastle by (simp add: es)
    from run_spaced[OF a b' o l', of host] st
    have ar: "armed (fst (last es)) ?run" and orr: "othersRestUntil tEnd ?run"
      and le: "length (passes ?run) \<le> length (passes w) + length es'"
      and eq: "someQueryAwake t1 ?w1 \<and> pendingEvaluations ?w1 \<noteq> [] \<longrightarrow>
            length (passes ?run) = length (passes w) + length es' \<and>
            pendingEvaluations ?run \<noteq> []"
      by (simp_all add: es)
    have 1: "length (passes (settle host tEnd ?run)) \<le> length (passes w) + length es"
      using fire[OF ar orr] le by (simp add: es)
    have 2: "length (passes (settle host tEnd ?run)) = length (passes w) + length es"
      if "someQueryAwake (fst (hd es)) w"
    proof -
      have aw: "someQueryAwake t1 w" using that by (simp add: es)
      then have "someQueryAwake t1 ?w1" using m by (simp add: someQueryAwake_def)
      moreover have "pendingEvaluations ?w1 \<noteq> []" using aw by (rule handlePathChange_marks)
      ultimately have "length (passes ?run) = length (passes w) + length es'"
        and "pendingEvaluations ?run \<noteq> []" using eq by simp_all
      with fire[OF ar orr] show ?thesis by (simp add: es)
    qed
    from ar 1 2 show ?thesis by blast
  qed
  have one: "map due (debounceTimers ?run) = [fst (last es) + EVALUATION_DEBOUNCE_MS]"
    if "withinDebounceWindow es \<or> separatedByMoreThanDelay es"
  proof -
    from that burst spaced have "armed (fst (last es)) ?run" by blast
    then show ?thesis by (auto simp: armed_def)
  qed
  have per: "length (passes (periodicCallback host now v)) \<le> length (passes v) + 1"
    by (simp add: periodicCallback_frame)
  have c1: "withinDebounceWindow es \<or> separatedByMoreThanDelay es \<longrightarrow>
      map due (debounceTimers ?run) = [fst (last es) + EVALUATION_DEBOUNCE_MS]"
    using one by blast
  have c2: "withinDebounceWindow es \<longrightarrow>
      passes (settle host tEnd ?run)
        = passes w @ (if pendingEvaluations ?run = [] then [] else [pendingEvaluations ?run]) \<and>
      (someQueryAwake (fst (hd es)) w \<longrightarrow>
         length (passes (settle host tEnd ?run)) = length (passes w) + 1)"
    using burst by blast
  have c3: "separatedByMoreThanDelay es \<longrightarrow>
      length (passes (settle host tEnd ?run)) \<le> length (passes w) + length es \<and>
      (someQueryAwake (fst (hd es)) w \<longrightarrow>
         length (passes (settle host tEnd ?run)) = length (passes w) + length es)"
    using spaced by blast
  show ?thesis
    by (intro conjI c1 c2 c3 settle_complete triggerEvaluation_frame(1) triggerEvaluation_frame(3)
        periodicCallback_frame(1) per)
qed

lemma sample_started:
  "evaluationDebounceTimer (settle sampleWatcherHost 5000 (initialize 0 emptyWatcher)) = None"
  "debounceTimers (settle sampleWatcherHost 5000 (initialize 0 emptyWatcher)) = []"
  "othersRestUntil 20000 (settle sampleWatcherHost 5000 (initialize 0 emptyWatcher))"
  "someQueryAwake 10000 (settle sampleWatcherHost 5000 (initialize 0 emptyWatcher))"
  "passes (settle sampleWatcherHost 5000 (initialize 0 emptyWatcher)) = []"
  by code_simp+

theorem debounce_coalesces_witness:
  "length (passes (settle sampleWatcherHost 20000
      (runChanges sampleWatcherHost
         [(10000, ''Docs/a.md''), (10200, ''Docs/b.md''), (10900, ''Docs/a.md'')]
         (settle sampleWatcherHost 5000 (initialize 0 emptyWatcher))))) = 1 \<and>
   length (passes (settle sampleWatcherHost 20000
      (runChanges sampleWatcherHost
         [(10000, ''Docs/a.md''), (11500, ''Docs/b.md''), (14000, ''Docs/a.md'')]
         (settle sampleWatcherHost 5000 (initialize 0 emptyWatcher))))) = 3 \<and>
   map due (debounceTimers
      (runChanges sampleWatcherHost
         [(10000, ''Docs/a.md''), (10200, ''Docs/b.md''), (10900, ''Docs/a.md'')]
         (settle sampleWatcherHost 5000 (initialize 0 emptyWatcher)))) = [11900]"
proof -
  note s = sample_started
  let ?W = "settle sampleWatcherHost 5000 (initialize 0 emptyWatcher)"
  let ?burst = "[(10000::int, ''Docs/a.md''), (10200, ''Docs/b.md''), (10900, ''Docs/a.md'')]"
  let ?spaced = "[(10000::int, ''Docs/a.md''), (11500, ''Docs/b.md''), (14000, ''Docs/a.md'')]"
  have ne: "?burst \<noteq> []" "?spaced \<noteq> []" by simp_all
  have f: "fst (last ?burst) + EVALUATION_DEBOUNCE_MS \<le> 20000"
    "fst (last ?spaced) + EVALUATION_DEBOUNCE_MS \<le> 20000"
    by (simp_all add: EVALUATION_DEBOUNCE_MS_def)
  have b: "withinDebounceWindow ?burst" and sp: "separatedByMoreThanDelay ?spaced"
    by (simp_all add: EVALUATION_DEBOUNCE_MS_def)
  have aw: "someQueryAwake (fst (hd ?burst)) ?W" "someQueryAwake (fst (hd ?spaced)) ?W"
    using s(4) by simp_all
  have l: "fst (last ?burst) + EVALUATION_DEBOUNCE_MS = 11900"
    by (simp add: EVALUATION_DEBOUNCE_MS_def)
  note t1 = debounce_coalesces[OF s(1) s(2) ne(1) s(3) f(1), where host = sampleWatcherHost]
  note t2 = debounce_coalesces[OF s(1) s(2) ne(2) s(3) f(2), where host = sampleWatcherHost]
  from t1[THEN conjunct2, THEN conjunct1, THEN mp, OF b, THEN conjunct2, THEN mp, OF aw(1)]
  have 1: "length (passes (settle sampleWatcherHost 20000 (runChanges sampleWatcherHost ?burst ?W)))
      = length (passes ?W) + 1" .
  from t2[THEN conjunct2, THEN conjunct2, THEN conjunct1, THEN mp, OF sp, THEN conjunct2,
      THEN mp, OF aw(2)]
  have 2: "length (passes (settle sampleWatcherHost 20000 (runChanges sampleWatcherHost ?spaced ?W)))
      = length (passes ?W) + length ?spaced" .
  from t1[THEN conjunct1, THEN mp, OF disjI1, OF b]
  have 3: "map due (debounceTimers (runChanges sampleWatcherHost ?burst ?W))
      = [fst (last ?burst) + EVALUATION_DEBOUNCE_MS]" .
  from 1 2 3 show ?thesis by (simp only: s(5) l) simp
qed

text \<open>
  Claim C3 does not hold of the code: \<open>startPeriodicScan\<close> drops the handle of its interval,
  so \<open>destroy\<close> cannot clear it. After initialization, the startup scan and the teardown,
  the periodic timer is still armed; when it fires it registers the queries again and opens
  notifications.
\<close>

theorem periodic_scan_survives_destroy:
  "timers (destroy (fireTimer sampleWatcherHost \<lparr>tid = 1, kind = StartupScan, due = 5000\<rparr>
                     (initialize 0 emptyWatcher)))
     = [\<lparr>tid = 6, kind = PeriodicScan, due = 305000\<rparr>] \<and>
   map fst (monitoredBases
     (fireTimer sampleWatcherHost \<lparr>tid = 6, kind = PeriodicScan, due = 305000\<rparr>
        (destroy (fireTimer sampleWatcherHost \<lparr>tid = 1, kind = StartupScan, due = 5000\<rparr>
                    (initialize 0 emptyWatcher)))))
     = [''q1.base'', ''q2.base'', ''q3.base'', ''q4.base''] \<and>
   map baseFilePath_of (dispatched
     (fireTimer sampleWatcherHost \<lparr>tid = 6, kind = PeriodicScan, due = 305000\<rparr>
        (destroy (fireTimer sampleWatcherHost \<lparr>tid = 1, kind = StartupScan, due = 5000\<rparr>
                    (initialize 0 emptyWatcher)))))
     = [''q1.base'', ''q4.base'']"
  by code_simp

end
